theory Spec2Isabelle
  imports Main "HOL-Library.Word" "HOL-Library.Multiset"
begin

unbundle bit_operations_syntax

section \<open>Data model of \<^verbatim>\<open>include/keyhunt/core/types.h\<close>\<close>

type_synonym u8 = "8 word"
type_synonym u64 = "64 word"
type_synonym u128 = "128 word"

text \<open>
  \<^verbatim>\<open>class UInt256\<close> holds \<^verbatim>\<open>std::array<uint64_t, 4> limbs_\<close>, least significant limb
  first. The four fields are the four array cells; \<open>limb\<close> and \<open>set_limb\<close> are the
  indexed read and write \<^verbatim>\<open>limbs_[i]\<close> (every index the code uses is below 4).
\<close>

datatype UInt256 = UInt256 (limb0: u64) (limb1: u64) (limb2: u64) (limb3: u64)

fun limb :: "UInt256 \<Rightarrow> nat \<Rightarrow> u64" where
  "limb (UInt256 a b c d) i =
     (if i = 0 then a else if i = 1 then b else if i = 2 then c else d)"

fun set_limb :: "UInt256 \<Rightarrow> nat \<Rightarrow> u64 \<Rightarrow> UInt256" where
  "set_limb (UInt256 a b c d) i v =
     (if i = 0 then UInt256 v b c d else if i = 1 then UInt256 a v c d
      else if i = 2 then UInt256 a b v d else UInt256 a b c v)"

text \<open>\<^verbatim>\<open>UInt256()\<close> fills the limbs with 0; \<^verbatim>\<open>UInt256(uint64_t value)\<close> sets limb 0.\<close>

definition uint256_zero :: UInt256 where
  "uint256_zero = UInt256 0 0 0 0"

definition uint256_of_u64 :: "u64 \<Rightarrow> UInt256" where
  "uint256_of_u64 v = set_limb uint256_zero 0 v"

text \<open>The number a \<open>UInt256\<close> stands for.\<close>

definition val :: "UInt256 \<Rightarrow> nat" where
  "val x = unat (limb x 0) + 2 ^ 64 * unat (limb x 1)
           + 2 ^ 128 * unat (limb x 2) + 2 ^ 192 * unat (limb x 3)"

subsection \<open>Comparison\<close>

text \<open>
  \<^verbatim>\<open>operator<\<close>: the limbs are compared from index 3 down to 0; the loop counter is a
  signed \<^verbatim>\<open>int\<close> that stops below 0.
\<close>

function less_loop :: "int \<Rightarrow> UInt256 \<Rightarrow> UInt256 \<Rightarrow> bool" where
  "less_loop i x y =
     (if i \<ge> 0 then
        (if limb x (nat i) < limb y (nat i) then True
         else if limb x (nat i) > limb y (nat i) then False
         else less_loop (i - 1) x y)
      else False)"
  by pat_completeness auto
termination
  by (relation "measure (\<lambda>(i, x, y). nat (i + 1))") auto

definition uint256_less :: "UInt256 \<Rightarrow> UInt256 \<Rightarrow> bool" where
  "uint256_less x y = less_loop 3 x y"

definition uint256_greater :: "UInt256 \<Rightarrow> UInt256 \<Rightarrow> bool" where
  "uint256_greater x y = uint256_less y x"

definition uint256_le :: "UInt256 \<Rightarrow> UInt256 \<Rightarrow> bool" where
  "uint256_le x y = (\<not> uint256_less y x)"

definition uint256_ge :: "UInt256 \<Rightarrow> UInt256 \<Rightarrow> bool" where
  "uint256_ge x y = (\<not> uint256_less x y)"

subsection \<open>Addition and subtraction\<close>

text \<open>
  The body of the loop of \<^verbatim>\<open>operator+\<close>: the two limbs and the carry are added in
  \<^verbatim>\<open>__uint128_t\<close>; the low 64 bits are the result limb, the high 64 bits the carry.
\<close>

definition add_limb :: "u64 \<Rightarrow> u64 \<Rightarrow> u64 \<Rightarrow> u64 \<times> u64" where
  "add_limb a b carry =
     (let sum = (ucast a :: u128) + (ucast b :: u128) + (ucast carry :: u128)
      in (ucast sum, ucast (drop_bit 64 sum)))"

function add_loop :: "nat \<Rightarrow> UInt256 \<Rightarrow> UInt256 \<Rightarrow> UInt256 \<Rightarrow> u64 \<Rightarrow> UInt256" where
  "add_loop i x y result carry =
     (if i < 4 then
        (case add_limb (limb x i) (limb y i) carry of
           (s, carry') \<Rightarrow> add_loop (i + 1) x y (set_limb result i s) carry')
      else result)"
  by pat_completeness auto
termination
  by (relation "measure (\<lambda>(i, x, y, r, c). 4 - i)") auto

definition uint256_add :: "UInt256 \<Rightarrow> UInt256 \<Rightarrow> UInt256" where
  "uint256_add x y = add_loop 0 x y uint256_zero 0"

text \<open>
  The body of the loop of \<^verbatim>\<open>operator-\<close>: \<^verbatim>\<open>b = other.limbs_[i] + borrow\<close> wraps in 64
  bits; \<^verbatim>\<open>b < borrow\<close> detects that wrap, \<^verbatim>\<open>a < b\<close> the underflow.
\<close>

definition sub_limb :: "u64 \<Rightarrow> u64 \<Rightarrow> u64 \<Rightarrow> u64 \<times> u64" where
  "sub_limb a0 b0 borrow =
     (let a = a0; b = b0 + borrow
      in if b < borrow \<or> a < b then (a + (NOT b + 1), 1) else (a - b, 0))"

function sub_loop :: "nat \<Rightarrow> UInt256 \<Rightarrow> UInt256 \<Rightarrow> UInt256 \<Rightarrow> u64 \<Rightarrow> UInt256" where
  "sub_loop i x y result borrow =
     (if i < 4 then
        (case sub_limb (limb x i) (limb y i) borrow of
           (d, borrow') \<Rightarrow> sub_loop (i + 1) x y (set_limb result i d) borrow')
      else result)"
  by pat_completeness auto
termination
  by (relation "measure (\<lambda>(i, x, y, r, c). 4 - i)") auto

definition uint256_sub :: "UInt256 \<Rightarrow> UInt256 \<Rightarrow> UInt256" where
  "uint256_sub x y = sub_loop 0 x y uint256_zero 0"

subsection \<open>Bits\<close>

text \<open>\<^verbatim>\<open>set_bit(pos, value)\<close>: positions from 256 on are ignored.\<close>

definition set_bit256 :: "UInt256 \<Rightarrow> nat \<Rightarrow> bool \<Rightarrow> UInt256" where
  "set_bit256 x pos v =
     (if pos \<ge> 256 then x
      else let limb_idx = pos div 64; bit_idx = pos mod 64
           in if v then set_limb x limb_idx (limb x limb_idx OR push_bit bit_idx 1)
              else set_limb x limb_idx (limb x limb_idx AND NOT (push_bit bit_idx 1)))"

subsection \<open>Bytes\<close>

text \<open>
  \<^verbatim>\<open>to_bytes\<close> writes \<^verbatim>\<open>result[31 - (i * 8 + j)] = uint8_t(limbs_[i] >> (j * 8))\<close> for
  \<open>i < 4\<close>, \<open>j < 8\<close> into a \<^verbatim>\<open>std::array<uint8_t, 32>\<close>. The array is not initialised
  by the code; every cell is written by the loops, so the start value does not show.
\<close>

definition to_bytes :: "UInt256 \<Rightarrow> u8 list" where
  "to_bytes x =
     fold (\<lambda>i result.
        fold (\<lambda>j result. result[31 - (i * 8 + j) := ucast (drop_bit (j * 8) (limb x i))])
          [0..<8] result)
       [0..<4] (replicate 32 0)"

text \<open>
  \<^verbatim>\<open>from_bytes(const uint8_t* bytes)\<close> reads the 32 bytes \<^verbatim>\<open>bytes[0..31]\<close>; the buffer is
  the list \<open>bytes\<close>, which has to hold at least 32 cells.
\<close>

definition from_bytes :: "u8 list \<Rightarrow> UInt256" where
  "from_bytes bytes =
     fold (\<lambda>i result.
        set_limb result i
          (fold (\<lambda>j l. l OR push_bit (j * 8) (ucast (bytes ! (31 - (i * 8 + j))) :: u64))
             [0..<8] 0))
       [0..<4] uint256_zero"

text \<open>Byte \<open>j\<close> of a limb, as \<^verbatim>\<open>to_bytes\<close> extracts it.\<close>

definition byte_of :: "u64 \<Rightarrow> nat \<Rightarrow> u8" where
  "byte_of l j = ucast (drop_bit (j * 8) l)"

text \<open>The number a big-endian byte string stands for: byte 0 is the most significant.\<close>

definition be_val :: "u8 list \<Rightarrow> nat" where
  "be_val bs = foldl (\<lambda>acc b. 256 * acc + unat b) 0 bs"

subsection \<open>\<^verbatim>\<open>struct KeyRange\<close>\<close>

datatype error = ValidationException string | RuntimeError string

record KeyRange =
  range_start :: UInt256
  range_end :: UInt256

text \<open>
  \<^verbatim>\<open>KeyRange::for_bits(int bit_count)\<close>. The guard comes first, so \<^verbatim>\<open>bit_count - 1\<close> and
  the loop counter stay within 0..256 and the \<^verbatim>\<open>int\<close> arithmetic cannot overflow.
\<close>

function for_bits_loop :: "int \<Rightarrow> int \<Rightarrow> UInt256 \<Rightarrow> UInt256" where
  "for_bits_loop i bit_count e =
     (if i < bit_count then for_bits_loop (i + 1) bit_count (set_bit256 e (nat i) True)
      else e)"
  by pat_completeness auto
termination
  by (relation "measure (\<lambda>(i, n, e). nat (n - i))") auto

definition for_bits :: "int \<Rightarrow> error + KeyRange" where
  "for_bits bit_count =
     (if bit_count \<le> 0 \<or> bit_count > 256
      then Inl (ValidationException ''Bit count must be between 1 and 256'')
      else Inr \<lparr> range_start = set_bit256 uint256_zero (nat (bit_count - 1)) True,
                 range_end = for_bits_loop 0 bit_count uint256_zero \<rparr>)"

definition size_range :: "KeyRange \<Rightarrow> UInt256" where
  "size_range r =
     (if uint256_greater (range_start r) (range_end r) then uint256_of_u64 0
      else uint256_add (uint256_sub (range_end r) (range_start r)) (uint256_of_u64 1))"

definition contains :: "KeyRange \<Rightarrow> UInt256 \<Rightarrow> bool" where
  "contains r key = (uint256_ge key (range_start r) \<and> uint256_le key (range_end r))"

text \<open>
  \<^verbatim>\<open>KeyRange::split(size_t n)\<close>: \<^verbatim>\<open>range_size\<close> is computed and not used; the only
  \<^verbatim>\<open>push_back\<close> is that of the range itself.
\<close>

definition split :: "KeyRange \<Rightarrow> u64 \<Rightarrow> KeyRange list" where
  "split r n =
     (if n = 0 then []
      else let range_size = size_range r in [r])"

section \<open>Data model of \<^verbatim>\<open>include/keyhunt/core/thread_pool.h\<close>\<close>

subsection \<open>Tasks and the priority queue\<close>

datatype TaskPriority = LOW | NORMAL | HIGH | CRITICAL

fun priority_value :: "TaskPriority \<Rightarrow> u8" where
  "priority_value LOW = 0"
| "priority_value NORMAL = 1"
| "priority_value HIGH = 2"
| "priority_value CRITICAL = 3"

record 'f Task =
  func :: 'f
  priority :: TaskPriority

definition task_less :: "'f Task \<Rightarrow> 'f Task \<Rightarrow> bool" where
  "task_less a b = (priority_value (priority a) < priority_value (priority b))"

text \<open>
  \<^verbatim>\<open>std::priority_queue<Task> tasks_\<close> is a \<^verbatim>\<open>std::vector<Task>\<close> kept as a binary heap
  under \<^verbatim>\<open>operator<\<close>: \<^verbatim>\<open>push\<close> is \<^verbatim>\<open>push_back\<close> then \<^verbatim>\<open>std::push_heap\<close>, \<^verbatim>\<open>pop\<close> is
  \<^verbatim>\<open>std::pop_heap\<close> then \<^verbatim>\<open>pop_back\<close>, \<^verbatim>\<open>top\<close> is \<^verbatim>\<open>front\<close>. The heap algorithms are those
  of the standard library the pool is compiled against; they are written here as in
  libstdc++ (\<^verbatim>\<open>bits/stl_heap.h\<close>: \<^verbatim>\<open>__push_heap\<close>, \<^verbatim>\<open>__adjust_heap\<close>, \<^verbatim>\<open>__pop_heap\<close>), with the
  iterator \<^verbatim>\<open>first + k\<close> as index \<open>k\<close> of the list. The indices are \<^verbatim>\<open>ptrdiff_t\<close> in the
  library; wherever the library subtracts, the natural-number result agrees with it,
  except for \<^verbatim>\<open>(len - 2) / 2\<close>, which is computed on integers below.
\<close>

function push_heap_loop :: "'f Task list \<Rightarrow> nat \<Rightarrow> nat \<Rightarrow> 'f Task \<Rightarrow> 'f Task list" where
  "push_heap_loop first holeIndex topIndex v =
     (let parent = (holeIndex - 1) div 2
      in if holeIndex > topIndex \<and> task_less (first ! parent) v
         then push_heap_loop (first[holeIndex := first ! parent]) parent topIndex v
         else first[holeIndex := v])"
  by pat_completeness auto
termination
  by (relation "measure (\<lambda>(first, holeIndex, topIndex, v). holeIndex)") auto

definition push_heap :: "'f Task list \<Rightarrow> 'f Task list" where
  "push_heap c = push_heap_loop c (length c - 1) 0 (c ! (length c - 1))"

function adjust_heap_loop :: "'f Task list \<Rightarrow> nat \<Rightarrow> nat \<Rightarrow> nat \<Rightarrow> 'f Task list \<times> nat \<times> nat" where
  "adjust_heap_loop first holeIndex secondChild len =
     (if secondChild < (len - 1) div 2 then
        (let sc = 2 * (secondChild + 1);
             sc' = (if task_less (first ! sc) (first ! (sc - 1)) then sc - 1 else sc)
         in adjust_heap_loop (first[holeIndex := first ! sc']) sc' sc' len)
      else (first, holeIndex, secondChild))"
  by pat_completeness auto
termination
  by (relation "measure (\<lambda>(first, holeIndex, secondChild, len). len - secondChild)") auto

definition adjust_heap :: "'f Task list \<Rightarrow> nat \<Rightarrow> nat \<Rightarrow> 'f Task \<Rightarrow> 'f Task list" where
  "adjust_heap first holeIndex len v =
     (let topIndex = holeIndex
      in case adjust_heap_loop first holeIndex holeIndex len of
           (first1, holeIndex1, secondChild1) \<Rightarrow>
             if len mod 2 = 0 \<and> int secondChild1 = (int len - 2) div 2
             then (let sc = 2 * (secondChild1 + 1)
                   in push_heap_loop (first1[holeIndex1 := first1 ! (sc - 1)]) (sc - 1) topIndex v)
             else push_heap_loop first1 holeIndex1 topIndex v)"

definition pop_heap :: "'f Task list \<Rightarrow> 'f Task list" where
  "pop_heap c =
     (if length c > 1
      then (let result = length c - 1; v = c ! result
            in adjust_heap (c[result := c ! 0]) 0 result v)
      else c)"

definition pq_push :: "'f Task \<Rightarrow> 'f Task list \<Rightarrow> 'f Task list" where
  "pq_push x c = push_heap (c @ [x])"

definition pq_top :: "'f Task list \<Rightarrow> 'f Task" where
  "pq_top c = c ! 0"

definition pq_pop :: "'f Task list \<Rightarrow> 'f Task list" where
  "pq_pop c = butlast (pop_heap c)"

text \<open>The heap property of the first \<open>n\<close> cells, for the proofs about the queue.\<close>

definition is_heap :: "'f Task list \<Rightarrow> nat \<Rightarrow> bool" where
  "is_heap xs n = (\<forall>i. 0 < i \<and> i < n \<longrightarrow> \<not> task_less (xs ! ((i - 1) div 2)) (xs ! i))"

definition hole_inv :: "'f Task list \<Rightarrow> nat \<Rightarrow> nat \<Rightarrow> 'f Task \<Rightarrow> bool" where
  "hole_inv ys n h v \<longleftrightarrow>
     (\<forall>i. 0 < i \<and> i < n \<and> i \<noteq> h \<longrightarrow> \<not> task_less (ys ! ((i - 1) div 2)) (ys ! i))
   \<and> (\<forall>c. 0 < c \<and> c < n \<and> (c - 1) div 2 = h \<longrightarrow> \<not> task_less v (ys ! c))
   \<and> (\<forall>c. 0 < c \<and> c < n \<and> (c - 1) div 2 = h \<and> 0 < h \<longrightarrow>
         \<not> task_less (ys ! ((h - 1) div 2)) (ys ! c))"

text \<open>
  Tasks that are already queued, taken out by a single worker: it reads \<^verbatim>\<open>top()\<close> and
  calls \<^verbatim>\<open>pop()\<close> until the queue is empty. The counter bounds the number of rounds by
  the number of queued tasks.
\<close>

fun drain_n :: "nat \<Rightarrow> 'f Task list \<Rightarrow> 'f Task list" where
  "drain_n 0 c = []"
| "drain_n (Suc k) c = (if c = [] then [] else pq_top c # drain_n k (pq_pop c))"

definition drain :: "'f Task list \<Rightarrow> 'f Task list" where
  "drain c = drain_n (length c) c"

text \<open>The queue after the tasks \<open>ts\<close> were pushed in this order onto the empty queue.\<close>

definition queue_of :: "'f Task list \<Rightarrow> 'f Task list" where
  "queue_of ts = foldl (\<lambda>c t. pq_push t c) [] ts"

subsection \<open>\<^verbatim>\<open>class ThreadPool\<close>\<close>

text \<open>
  The state of a pool: the number of worker threads (\<^verbatim>\<open>workers_.size()\<close>), the queue, the
  two flags and the counters. The two time totals of \<^verbatim>\<open>ThreadPoolStats\<close> are left out.
\<close>

record 'f ThreadPool =
  workers :: nat
  tasks :: "'f Task list"
  stop :: bool
  paused :: bool
  active_tasks :: u64
  tasks_submitted :: u64
  tasks_completed :: u64
  tasks_pending :: u64

text \<open>
  The constructor: 0 threads means \<^verbatim>\<open>std::thread::hardware_concurrency()\<close>, here the
  parameter \<open>hc\<close>, and 4 if that is 0 as well.
\<close>

definition new_pool :: "nat \<Rightarrow> nat \<Rightarrow> 'f ThreadPool" where
  "new_pool num_threads hc =
     \<lparr> workers = (if num_threads = 0 then (if hc = 0 then 4 else hc) else num_threads),
       tasks = [], stop = False, paused = False, active_tasks = 0,
       tasks_submitted = 0, tasks_completed = 0, tasks_pending = 0 \<rparr>"

text \<open>
  \<^verbatim>\<open>submit_with_priority\<close>, \<^verbatim>\<open>submit\<close> and \<^verbatim>\<open>submit_batch\<close>. The result is the exception
  thrown, if any, and the state of the pool afterwards. The future that is returned
  is not part of the pool.
\<close>

definition submit_with_priority ::
  "'f ThreadPool \<Rightarrow> TaskPriority \<Rightarrow> 'f \<Rightarrow> (error + unit) \<times> 'f ThreadPool" where
  "submit_with_priority p prio f =
     (if stop p then (Inl (RuntimeError ''Cannot submit to stopped thread pool''), p)
      else (Inr (),
            p\<lparr> tasks := pq_push \<lparr>func = f, priority = prio\<rparr> (tasks p),
               tasks_submitted := tasks_submitted p + 1,
               tasks_pending := tasks_pending p + 1 \<rparr>))"

definition submit :: "'f ThreadPool \<Rightarrow> 'f \<Rightarrow> (error + unit) \<times> 'f ThreadPool" where
  "submit p f = submit_with_priority p NORMAL f"

definition submit_batch ::
  "'f ThreadPool \<Rightarrow> 'f list \<Rightarrow> TaskPriority \<Rightarrow> (error + unit) \<times> 'f ThreadPool" where
  "submit_batch p fs prio =
     (if stop p then (Inl (RuntimeError ''Cannot submit to stopped thread pool''), p)
      else (Inr (),
            p\<lparr> tasks := fold (\<lambda>f c. pq_push \<lparr>func = f, priority = prio\<rparr> c) fs (tasks p),
               tasks_submitted := tasks_submitted p + of_nat (length fs),
               tasks_pending := tasks_pending p + of_nat (length fs) \<rparr>))"

definition pause :: "'f ThreadPool \<Rightarrow> 'f ThreadPool" where
  "pause p = p\<lparr> paused := True \<rparr>"

definition resume :: "'f ThreadPool \<Rightarrow> 'f ThreadPool" where
  "resume p = p\<lparr> paused := False \<rparr>"

text \<open>\<^verbatim>\<open>shutdown\<close> sets the flag under the lock; joining the workers is not modelled.\<close>

definition shutdown :: "'f ThreadPool \<Rightarrow> 'f ThreadPool" where
  "shutdown p = (if stop p then p else p\<lparr> stop := True \<rparr>)"

subsection \<open>The workers as a step relation\<close>

text \<open>
  \<^verbatim>\<open>worker_loop\<close>, one step per access to the shared state. A worker is
  \<^item> \<open>AtLock\<close>: before \<^verbatim>\<open>std::unique_lock lock(queue_mutex_)\<close>;
  \<^item> \<open>AtPred\<close>: holding the mutex, about to evaluate the predicate of
    \<^verbatim>\<open>condition_.wait\<close>;
  \<^item> \<open>Waiting\<close>: blocked inside \<^verbatim>\<open>condition_.wait\<close>, the mutex released;
  \<^item> \<open>AtStopCheck\<close>: holding the mutex at \<^verbatim>\<open>if (stop_ && tasks_.empty())\<close>;
  \<^item> \<open>AtPausedCheck\<close>: holding the mutex at \<^verbatim>\<open>if (tasks_.empty() || paused_.load())\<close>;
  \<^item> \<open>AtPop\<close>: holding the mutex at \<^verbatim>\<open>task = std::move(tasks_.top()); tasks_.pop()\<close>;
  \<^item> \<open>Running t\<close>: the mutex released, about to call \<^verbatim>\<open>task.func()\<close> (the increment of
    \<^verbatim>\<open>active_tasks_\<close> that follows the release is counted with the pop);
  \<^item> \<open>Exited\<close>: returned from the loop.
  \<^verbatim>\<open>pause()\<close> and \<^verbatim>\<open>resume()\<close> store to the atomic flag without taking the mutex, so they
  are steps that are enabled in every state. \<^verbatim>\<open>submit\<close> and \<^verbatim>\<open>shutdown\<close> take the mutex
  for their whole effect and are single steps enabled when the mutex is free. A
  waiting worker may wake up whenever the mutex is free (a notification or a spurious
  wake-up) and evaluates the predicate again.
\<close>

datatype 'f wpc = AtLock | AtPred | Waiting | AtStopCheck | AtPausedCheck | AtPop
  | Running "'f Task" | Exited

datatype 'f event = WLock nat | WPred nat | WWake nat | WStopCheck nat | WPausedCheck nat
  | WPop nat | WRun nat | EvPause | EvResume | EvSubmit TaskPriority 'f | EvShutdown

record 'f sched =
  pool :: "'f ThreadPool"
  mutex :: "nat option"
  pc :: "nat \<Rightarrow> 'f wpc"

definition initial :: "'f ThreadPool \<Rightarrow> 'f sched" where
  "initial p = \<lparr> pool = p, mutex = None, pc = (\<lambda>w. if w < workers p then AtLock else Exited) \<rparr>"

fun step :: "'f sched \<Rightarrow> 'f event \<Rightarrow> 'f sched option" where
  "step s (WLock w) =
     (if pc s w = AtLock \<and> mutex s = None
      then Some (s\<lparr> mutex := Some w, pc := (pc s)(w := AtPred) \<rparr>) else None)"
| "step s (WWake w) =
     (if pc s w = Waiting \<and> mutex s = None
      then Some (s\<lparr> mutex := Some w, pc := (pc s)(w := AtPred) \<rparr>) else None)"
| "step s (WPred w) =
     (if pc s w = AtPred \<and> mutex s = Some w
      then (if stop (pool s) \<or> (tasks (pool s) \<noteq> [] \<and> \<not> paused (pool s))
            then Some (s\<lparr> pc := (pc s)(w := AtStopCheck) \<rparr>)
            else Some (s\<lparr> mutex := None, pc := (pc s)(w := Waiting) \<rparr>))
      else None)"
| "step s (WStopCheck w) =
     (if pc s w = AtStopCheck \<and> mutex s = Some w
      then (if stop (pool s) \<and> tasks (pool s) = []
            then Some (s\<lparr> mutex := None, pc := (pc s)(w := Exited) \<rparr>)
            else Some (s\<lparr> pc := (pc s)(w := AtPausedCheck) \<rparr>))
      else None)"
| "step s (WPausedCheck w) =
     (if pc s w = AtPausedCheck \<and> mutex s = Some w
      then (if tasks (pool s) = [] \<or> paused (pool s)
            then Some (s\<lparr> mutex := None, pc := (pc s)(w := AtLock) \<rparr>)
            else Some (s\<lparr> pc := (pc s)(w := AtPop) \<rparr>))
      else None)"
| "step s (WPop w) =
     (if pc s w = AtPop \<and> mutex s = Some w
      then Some (s\<lparr> pool := (pool s)\<lparr> tasks := pq_pop (tasks (pool s)),
                                     tasks_pending := tasks_pending (pool s) - 1,
                                     active_tasks := active_tasks (pool s) + 1 \<rparr>,
                     mutex := None,
                     pc := (pc s)(w := Running (pq_top (tasks (pool s)))) \<rparr>)
      else None)"
| "step s (WRun w) =
     (case pc s w of
        Running t \<Rightarrow>
          Some (s\<lparr> pool := (pool s)\<lparr> active_tasks := active_tasks (pool s) - 1,
                                     tasks_completed := tasks_completed (pool s) + 1 \<rparr>,
                   pc := (pc s)(w := AtLock) \<rparr>)
      | _ \<Rightarrow> None)"
| "step s EvPause = Some (s\<lparr> pool := pause (pool s) \<rparr>)"
| "step s EvResume = Some (s\<lparr> pool := resume (pool s) \<rparr>)"
| "step s (EvSubmit prio f) =
     (if mutex s = None
      then (case submit_with_priority (pool s) prio f of
              (Inl e, p') \<Rightarrow> None
            | (Inr u, p') \<Rightarrow> Some (s\<lparr> pool := p' \<rparr>))
      else None)"
| "step s EvShutdown =
     (if mutex s = None then Some (s\<lparr> pool := shutdown (pool s) \<rparr>) else None)"

fun run :: "'f sched \<Rightarrow> 'f event list \<Rightarrow> 'f sched option" where
  "run s [] = Some s"
| "run s (e # es) = (case step s e of None \<Rightarrow> None | Some s' \<Rightarrow> run s' es)"

subsection \<open>\<^verbatim>\<open>parallel_for\<close>\<close>

text \<open>
  \<^verbatim>\<open>IndexType\<close> is \<^verbatim>\<open>size_t\<close>: \<^verbatim>\<open>std::max(IndexType(1), total / (pool.size() * 4))\<close> only
  compiles when the quotient by a \<^verbatim>\<open>size_t\<close> has the type \<^verbatim>\<open>IndexType\<close>. The task of a
  chunk is the closure \<open>mk i chunk_end\<close> over the two bounds it captures; what it does
  when run is its inner loop, \<open>chunk_loop\<close>. The list \<open>futures\<close> has one entry per
  submitted chunk, as \<^verbatim>\<open>std::vector<std::future<void>> futures\<close> has.

  The loop \<^verbatim>\<open>for (i = start; i < end; i += chunk_size)\<close> adds in 64 bits and need not
  end when the sum wraps around, so it is a partial function: \<open>None\<close> is a call that
  does not return (also for the undefined division by \<^verbatim>\<open>pool.size() * 4 = 0\<close>).
\<close>

function chunk_loop :: "u64 \<Rightarrow> u64 \<Rightarrow> u64 list" where
  "chunk_loop j chunk_end = (if j < chunk_end then j # chunk_loop (j + 1) chunk_end else [])"
  by pat_completeness auto
termination
proof (relation "measure (\<lambda>(j, chunk_end). unat chunk_end - unat j)")
  show "wf (measure (\<lambda>(j, chunk_end). unat chunk_end - unat j))" by simp
next
  fix j chunk_end :: u64
  assume "j < chunk_end"
  then have "unat j < unat chunk_end" by (simp add: word_less_nat_alt)
  moreover have "unat chunk_end < 2 ^ 64" using unsigned_less [of chunk_end] by simp
  ultimately have "unat (j + 1) = unat j + 1"
    by (simp add: unat_word_ariths)
  with \<open>unat j < unat chunk_end\<close>
  show "((j + 1, chunk_end), (j, chunk_end)) \<in> measure (\<lambda>(j, chunk_end). unat chunk_end - unat j)"
    by simp
qed





text \<open>The indices on which the chunks call \<^verbatim>\<open>func\<close>, chunk after chunk.\<close>

definition invoked :: "(u64 \<times> u64) list \<Rightarrow> u64 list" where
  "invoked futures = concat (map (\<lambda>(i, chunk_end). chunk_loop i chunk_end) futures)"


section \<open>The bloom filter of the unit tests\<close>

text \<open>
  \<^verbatim>\<open>simple_hash\<close> and \<^verbatim>\<open>class SimpleBloomFilter\<close> of \<^verbatim>\<open>test_bloom_filter.cpp\<close>. The data
  \<^verbatim>\<open>(const void* data, size_t len)\<close> is the list of its \<open>len\<close> bytes. All sizes, positions
  and hashes are 64-bit and wrap around.
\<close>

definition simple_hash :: "u8 list \<Rightarrow> u64 \<Rightarrow> u64" where
  "simple_hash bytes seed =
     fold (\<lambda>b hash.
        let hash1 = hash * 31 + ucast b;
            hash2 = hash1 XOR drop_bit 17 hash1
        in hash2 * 0x85ebca6b) bytes seed"

record SimpleBloomFilter =
  bits :: "u8 list"
  num_bits :: u64
  num_hashes :: u64

text \<open>The constructor allocates \<^verbatim>\<open>(num_bits + 7) / 8\<close> zero bytes; the sum is a \<^verbatim>\<open>size_t\<close>.\<close>

definition new_filter :: "u64 \<Rightarrow> u64 \<Rightarrow> SimpleBloomFilter" where
  "new_filter nb nh =
     \<lparr> bits = replicate (unat ((nb + 7) div 8)) 0, num_bits = nb, num_hashes = nh \<rparr>"

text \<open>
  \<^verbatim>\<open>add\<close> and \<^verbatim>\<open>possibly_contains\<close>. \<open>None\<close> stands for undefined behaviour: the remainder
  \<^verbatim>\<open>h % num_bits_\<close> with \<^verbatim>\<open>num_bits_\<close> 0, or an access to \<^verbatim>\<open>bits_\<close> beyond its size.
\<close>

definition set_pos :: "u8 list \<Rightarrow> u64 \<Rightarrow> u8 list option" where
  "set_pos bs pos =
     (let idx = unat (pos div 8)
      in if idx < length bs
         then Some (bs[idx := bs ! idx OR push_bit (unat (pos mod 8)) 1])
         else None)"

function bloom_add_loop :: "SimpleBloomFilter \<Rightarrow> u8 list \<Rightarrow> u64 \<Rightarrow> SimpleBloomFilter option" where
  "bloom_add_loop f bytes i =
     (if i < num_hashes f then
        (if num_bits f = 0 then None
         else let h = simple_hash bytes i;
                  pos = h mod num_bits f
              in case set_pos (bits f) pos of
                   None \<Rightarrow> None
                 | Some bs \<Rightarrow> bloom_add_loop (f\<lparr> bits := bs \<rparr>) bytes (i + 1))
      else Some f)"
  by pat_completeness auto
termination
proof (relation "measure (\<lambda>(f, bytes, i). unat (num_hashes f) - unat i)")
  show "wf (measure (\<lambda>(f, bytes, i). unat (num_hashes f) - unat i))" by simp
next
  fix f :: SimpleBloomFilter and bytes :: "u8 list" and i :: u64 and bs :: "u8 list"
  assume "i < num_hashes f"
  then have lt: "unat i < unat (num_hashes f)" by (simp add: word_less_nat_alt)
  moreover have "unat (num_hashes f) < 2 ^ 64" using unsigned_less [of "num_hashes f"] by simp
  ultimately have "unat (i + 1) = unat i + 1"
    by (simp add: unat_word_ariths)
  with lt show "((f\<lparr> bits := bs \<rparr>, bytes, i + 1), (f, bytes, i))
      \<in> measure (\<lambda>(f, bytes, i). unat (num_hashes f) - unat i)"
    by simp
qed

definition add :: "SimpleBloomFilter \<Rightarrow> u8 list \<Rightarrow> SimpleBloomFilter option" where
  "add f bytes = bloom_add_loop f bytes 0"

function contains_loop :: "SimpleBloomFilter \<Rightarrow> u8 list \<Rightarrow> u64 \<Rightarrow> bool option" where
  "contains_loop f bytes i =
     (if i < num_hashes f then
        (if num_bits f = 0 then None
         else let h = simple_hash bytes i;
                  pos = h mod num_bits f;
                  idx = unat (pos div 8)
              in if idx < length (bits f)
                 then (if bits f ! idx AND push_bit (unat (pos mod 8)) 1 = 0 then Some False
                       else contains_loop f bytes (i + 1))
                 else None)
      else Some True)"
  by pat_completeness auto
termination
proof (relation "measure (\<lambda>(f, bytes, i). unat (num_hashes f) - unat i)")
  show "wf (measure (\<lambda>(f, bytes, i). unat (num_hashes f) - unat i))" by simp
next
  fix f :: SimpleBloomFilter and bytes :: "u8 list" and i :: u64
  assume "i < num_hashes f"
  then have lt: "unat i < unat (num_hashes f)" by (simp add: word_less_nat_alt)
  moreover have "unat (num_hashes f) < 2 ^ 64" using unsigned_less [of "num_hashes f"] by simp
  ultimately have "unat (i + 1) = unat i + 1"
    by (simp add: unat_word_ariths)
  with lt show "((f, bytes, i + 1), (f, bytes, i))
      \<in> measure (\<lambda>(f, bytes, i). unat (num_hashes f) - unat i)"
    by simp
qed

definition possibly_contains :: "SimpleBloomFilter \<Rightarrow> u8 list \<Rightarrow> bool option" where
  "possibly_contains f bytes = contains_loop f bytes 0"

text \<open>A sequence of \<^verbatim>\<open>add\<close> operations.\<close>

fun add_all :: "SimpleBloomFilter \<Rightarrow> u8 list list \<Rightarrow> SimpleBloomFilter option" where
  "add_all f [] = Some f"
| "add_all f (e # es) = (case add f e of None \<Rightarrow> None | Some f' \<Rightarrow> add_all f' es)"

text \<open>
  For the proofs: the vector covers all \<open>num_bits\<close> positions; the bit of position
  \<open>pos\<close>; and the positions that the hashes number \<open>i\<close> and up give for an element.
\<close>

definition covers :: "SimpleBloomFilter \<Rightarrow> bool" where
  "covers f \<longleftrightarrow> num_bits f \<noteq> 0 \<and> unat (num_bits f) \<le> 8 * length (bits f)"

definition pos_set :: "u8 list \<Rightarrow> u64 \<Rightarrow> bool" where
  "pos_set bs pos \<longleftrightarrow> bit (bs ! unat (pos div 8)) (unat (pos mod 8))"

definition hashed_from :: "SimpleBloomFilter \<Rightarrow> u8 list \<Rightarrow> u64 \<Rightarrow> bool" where
  "hashed_from f bytes i \<longleftrightarrow>
     (\<forall>j. i \<le> j \<and> j < num_hashes f \<longrightarrow> pos_set (bits f) (simple_hash bytes j mod num_bits f))"

section \<open>The BSGS search\<close>

text \<open>
  Modelled from the spec: the search of \<^verbatim>\<open>CPUBSGSEngine\<close>. \<^verbatim>\<open>bsgs.h\<close> declares the
  engine and \<^verbatim>\<open>struct Impl\<close>; the implementation and the group arithmetic are not among
  the sources. The definitions follow section 4.3 of the spec (and 4.1, 4.2 for the
  group and the table). The points form an abelian group, written additively; nothing
  else about the curve is used, so the type of points is any such group.
\<close>

datatype BSGSMode = SEQUENTIAL | BACKWARD | BOTH | RANDOM | DANCE



















section \<open>Pools and tasks of the examples\<close>

definition normal_task :: "nat \<Rightarrow> nat Task" where
  "normal_task k = \<lparr>func = k, priority = NORMAL\<rparr>"

text \<open>A pool of two workers with one task queued, shut down.\<close>

definition stopped_pool :: "nat ThreadPool" where
  "stopped_pool = shutdown (snd (submit (new_pool 2 0) 7))"

text \<open>A pool of one worker with one task queued.\<close>

definition one_task_pool :: "nat ThreadPool" where
  "one_task_pool = snd (submit (new_pool 1 0) 7)"


section \<open>Theorems\<close>

subsection \<open>Limb arithmetic\<close>

lemma sum128_unat:
  "unat ((ucast (a::u64) :: u128) + ucast (b::u64) + ucast (c::u64)) = unat a + unat b + unat c"
proof -
  have "unat a < 2^64" "unat b < 2^64" "unat c < 2^64"
    using unsigned_less [of a] unsigned_less [of b] unsigned_less [of c] by simp_all
  then have "unat a + unat b + unat c < 2^128" by simp
  then show ?thesis
    by (simp add: unat_word_ariths unsigned_ucast_eq take_bit_nat_eq_self)
qed

lemma add_limb_fst: "fst (add_limb a b c) = a + b + c"
  apply (simp add: add_limb_def Let_def)
  apply (rule word_unat_eq_iff [THEN iffD2])
  apply (simp add: unsigned_ucast_eq sum128_unat)
  apply (simp add: unat_word_ariths take_bit_eq_mod mod_simps)
  done

lemma add_limb_snd:
  "snd (add_limb a b c) = of_nat ((unat a + unat b + unat c) div 2^64)"
  apply (simp add: add_limb_def Let_def)
  apply (rule word_unat_eq_iff [THEN iffD2])
  apply (simp add: unsigned_ucast_eq unat_drop_bit_eq sum128_unat unat_of_nat
      drop_bit_eq_div take_bit_eq_mod unat_div)
  done

lemma mod_once: "(n::nat) < 2 * M \<Longrightarrow> n mod M = (if n < M then n else n - M)"
  by (simp add: mod_if)

lemma div_once: "(n::nat) < 2 * M \<Longrightarrow> n div M = (if n < M then 0 else 1)"
  by (auto simp: div_if)

lemma borrow_iff_carry:
  fixes A B C M :: nat
  assumes "A < M" "B < M" "C \<le> 1"
  shows "((B + C) mod M < C \<or> (A + B + C) mod M < (B + C) mod M) \<longleftrightarrow> M \<le> A + B + C"
proof -
  have 1: "B + C < 2 * M" "A + B + C < 2 * M" using assms by auto
  show ?thesis
    unfolding mod_once [OF 1(1)] mod_once [OF 1(2)] using assms by auto
qed

lemma carry_value:
  assumes "c \<le> (1::u64)"
  shows "snd (add_limb a b c) = (if 2^64 \<le> unat a + unat b + unat c then 1 else 0)"
proof -
  from assms have c: "unat c \<le> 1"
    by (auto simp: word_le_nat_alt)
  have bounds: "unat a < 2^64" "unat b < 2^64"
    using unsigned_less [of a] unsigned_less [of b] by simp_all
  have lt: "unat a + unat b + unat c < 2 * 2^64" using c bounds by linarith
  show ?thesis
    unfolding add_limb_snd div_once [OF lt] by (simp add: not_le)
qed

lemma carry_le_1: "c \<le> (1::u64) \<Longrightarrow> snd (add_limb a b c) \<le> 1"
  by (simp add: carry_value)

text \<open>
  One step of the borrow chain undoes one step of the carry chain, and the borrow it
  passes on is the carry that the addition passed on.
\<close>

lemma sub_add_limb:
  assumes "c \<le> 1"
  shows "sub_limb (fst (add_limb a b c)) b c = (a, snd (add_limb a b c))"
proof -
  from assms have c: "unat c \<le> 1"
    by (auto simp: word_le_nat_alt)
  have bounds: "unat a < 2^64" "unat b < 2^64"
    using unsigned_less [of a] unsigned_less [of b] by simp_all
  have res: "a + b + c + (NOT (b + c) + 1) = a" "a + b + c - (b + c) = a"
    by (simp_all add: not_eq_complement)
  have bc: "unat (b + c) = (unat b + unat c) mod 2^64"
    by (simp add: unat_word_ariths)
  have abc: "unat (a + b + c) = (unat a + unat b + unat c) mod 2^64"
    by (simp add: unat_word_ariths mod_simps)
  have cond: "(b + c < c \<or> a + b + c < b + c) \<longleftrightarrow> 2^64 \<le> unat a + unat b + unat c"
    unfolding word_less_nat_alt bc abc
    by (rule borrow_iff_carry [OF bounds c])
  show ?thesis
    unfolding sub_limb_def Let_def add_limb_fst carry_value [OF assms]
    by (simp only: res cond split: if_split) simp
qed

subsection \<open>The carry and borrow chains\<close>

lemma uint256_add_unfold:
  "uint256_add (UInt256 a0 a1 a2 a3) (UInt256 b0 b1 b2 b3) =
     (let p0 = add_limb a0 b0 0; p1 = add_limb a1 b1 (snd p0);
          p2 = add_limb a2 b2 (snd p1); p3 = add_limb a3 b3 (snd p2)
      in UInt256 (fst p0) (fst p1) (fst p2) (fst p3))"
  by (simp add: uint256_add_def uint256_zero_def Let_def split: prod.split)

lemma uint256_sub_unfold:
  "uint256_sub (UInt256 a0 a1 a2 a3) (UInt256 b0 b1 b2 b3) =
     (let p0 = sub_limb a0 b0 0; p1 = sub_limb a1 b1 (snd p0);
          p2 = sub_limb a2 b2 (snd p1); p3 = sub_limb a3 b3 (snd p2)
      in UInt256 (fst p0) (fst p1) (fst p2) (fst p3))"
  by (simp add: uint256_sub_def uint256_zero_def Let_def split: prod.split)

lemma val_less: "val x < 2 ^ 256"
proof (cases x)
  case (UInt256 a b c d)
  have "unat a < 2^64" "unat b < 2^64" "unat c < 2^64" "unat d < 2^64"
    using unsigned_less [of a] unsigned_less [of b] unsigned_less [of c] unsigned_less [of d]
    by simp_all
  then show ?thesis unfolding UInt256 val_def by simp
qed

lemma add_limb_sum:
  "c \<le> 1 \<Longrightarrow> unat (fst (add_limb a b c)) + 2^64 * unat (snd (add_limb a b c)) = unat a + unat b + unat c"
proof -
  assume c: "c \<le> 1"
  then have c': "unat c \<le> 1"
    by (auto simp: word_le_nat_alt)
  have bounds: "unat a < 2^64" "unat b < 2^64"
    using unsigned_less [of a] unsigned_less [of b] by simp_all
  have lt: "unat a + unat b + unat c < 2 * 2^64" using c' bounds by linarith
  have abc: "unat (a + b + c) = (unat a + unat b + unat c) mod 2^64"
    by (simp add: unat_word_ariths mod_simps)
  show ?thesis
    unfolding add_limb_fst carry_value [OF c] abc mod_once [OF lt]
    by (auto simp: not_le)
qed

lemma val_add_carry:
  "\<exists>c. c \<le> 1 \<and> val (uint256_add a b) + 2^256 * c = val a + val b"
proof (cases a; cases b)
  fix a0 a1 a2 a3 b0 b1 b2 b3
  assume a: "a = UInt256 a0 a1 a2 a3" and b: "b = UInt256 b0 b1 b2 b3"
  define p0 where "p0 = add_limb a0 b0 0"
  define p1 where "p1 = add_limb a1 b1 (snd p0)"
  define p2 where "p2 = add_limb a2 b2 (snd p1)"
  define p3 where "p3 = add_limb a3 b3 (snd p2)"
  have c0: "snd p0 \<le> 1" unfolding p0_def by (rule carry_le_1) simp
  have c1: "snd p1 \<le> 1" unfolding p1_def by (rule carry_le_1 [OF c0])
  have c2: "snd p2 \<le> 1" unfolding p2_def by (rule carry_le_1 [OF c1])
  have c3: "snd p3 \<le> 1" unfolding p3_def by (rule carry_le_1 [OF c2])
  have e0: "unat (fst p0) + 2^64 * unat (snd p0) = unat a0 + unat b0"
    unfolding p0_def using add_limb_sum [of 0 a0 b0] by simp
  have e1: "unat (fst p1) + 2^64 * unat (snd p1) = unat a1 + unat b1 + unat (snd p0)"
    unfolding p1_def by (rule add_limb_sum [OF c0])
  have e2: "unat (fst p2) + 2^64 * unat (snd p2) = unat a2 + unat b2 + unat (snd p1)"
    unfolding p2_def by (rule add_limb_sum [OF c1])
  have e3: "unat (fst p3) + 2^64 * unat (snd p3) = unat a3 + unat b3 + unat (snd p2)"
    unfolding p3_def by (rule add_limb_sum [OF c2])
  have add: "uint256_add a b = UInt256 (fst p0) (fst p1) (fst p2) (fst p3)"
    unfolding a b uint256_add_unfold p0_def p1_def p2_def p3_def by (simp add: Let_def)
  have "val (uint256_add a b) + 2^256 * unat (snd p3) = val a + val b"
    unfolding add unfolding a b val_def using e0 e1 e2 e3 by simp
  moreover have "unat (snd p3) \<le> 1" using c3 by (auto simp: word_le_nat_alt)
  ultimately show ?thesis by blast
qed

lemma val_add: "val (uint256_add a b) = (val a + val b) mod 2 ^ 256"
proof -
  obtain c where c: "c \<le> 1" "val (uint256_add a b) + 2^256 * c = val a + val b"
    using val_add_carry by blast
  have "(val a + val b) mod 2^256 = (val (uint256_add a b) + 2^256 * c) mod 2^256"
    using c by simp
  also have "\<dots> = val (uint256_add a b)"
    using val_less [of "uint256_add a b"] by simp
  finally show ?thesis by simp
qed


lemma sub_limb_as_add:
  assumes "w \<le> 1"
  shows "sub_limb a b w = (a - b - w, snd (add_limb (a - b - w) b w))"
proof -
  have "fst (add_limb (a - b - w) b w) = a" by (simp add: add_limb_fst)
  with sub_add_limb [OF assms, of "a - b - w" b] show ?thesis by simp
qed

lemma val_sub_borrow:
  "\<exists>c. c \<le> 1 \<and> val (uint256_sub a b) + val b = val a + 2^256 * c"
proof (cases a; cases b)
  fix a0 a1 a2 a3 b0 b1 b2 b3
  assume a: "a = UInt256 a0 a1 a2 a3" and b: "b = UInt256 b0 b1 b2 b3"
  define p0 where "p0 = sub_limb a0 b0 0"
  define p1 where "p1 = sub_limb a1 b1 (snd p0)"
  define p2 where "p2 = sub_limb a2 b2 (snd p1)"
  define p3 where "p3 = sub_limb a3 b3 (snd p2)"
  have step: "snd (sub_limb x y w) \<le> 1 \<and>
      unat (fst (sub_limb x y w)) + unat y + unat w = unat x + 2^64 * unat (snd (sub_limb x y w))"
    if "w \<le> 1" for x y w
    using add_limb_sum [OF that, of "x - y - w" y] carry_le_1 [OF that, of "x - y - w" y]
    by (simp add: sub_limb_as_add [OF that] add_limb_fst)
  have c0: "snd p0 \<le> 1" unfolding p0_def using step [of 0] by simp
  have c1: "snd p1 \<le> 1" unfolding p1_def using step [OF c0] by simp
  have c2: "snd p2 \<le> 1" unfolding p2_def using step [OF c1] by simp
  have c3: "snd p3 \<le> 1" unfolding p3_def using step [OF c2] by simp
  have e0: "unat (fst p0) + unat b0 = unat a0 + 2^64 * unat (snd p0)"
    unfolding p0_def using step [of 0 a0 b0] by simp
  have e1: "unat (fst p1) + unat b1 + unat (snd p0) = unat a1 + 2^64 * unat (snd p1)"
    unfolding p1_def using step [OF c0] by simp
  have e2: "unat (fst p2) + unat b2 + unat (snd p1) = unat a2 + 2^64 * unat (snd p2)"
    unfolding p2_def using step [OF c1] by simp
  have e3: "unat (fst p3) + unat b3 + unat (snd p2) = unat a3 + 2^64 * unat (snd p3)"
    unfolding p3_def using step [OF c2] by simp
  have sub: "uint256_sub a b = UInt256 (fst p0) (fst p1) (fst p2) (fst p3)"
    unfolding a b uint256_sub_unfold p0_def p1_def p2_def p3_def by (simp add: Let_def)
  have "val (uint256_sub a b) + val b = val a + 2^256 * unat (snd p3)"
    unfolding sub unfolding a b val_def using e0 e1 e2 e3 by simp
  moreover have "unat (snd p3) \<le> 1" using c3 by (auto simp: word_le_nat_alt)
  ultimately show ?thesis by blast
qed

lemma val_sub: "val (uint256_sub a b) = (val a + 2 ^ 256 - val b) mod 2 ^ 256"
proof -
  obtain c where c: "c \<le> 1" "val (uint256_sub a b) + val b = val a + 2^256 * c"
    using val_sub_borrow by blast
  have lt: "val (uint256_sub a b) < 2^256" "val a < 2^256" "val b < 2^256"
    by (rule val_less)+
  from c(1) have "c = 0 \<or> c = 1" by auto
  then show ?thesis
  proof
    assume "c = 0"
    with c(2) have "val a + 2^256 - val b = val (uint256_sub a b) + 2^256" by simp
    then show ?thesis using lt(1) by simp
  next
    assume "c = 1"
    with c(2) have "val a + 2^256 - val b = val (uint256_sub a b)" by simp
    then show ?thesis using lt(1) by simp
  qed
qed

lemma add_sub_cancel_limbs: "uint256_sub (uint256_add a b) b = a"
proof (cases a; cases b)
  fix a0 a1 a2 a3 b0 b1 b2 b3
  assume a: "a = UInt256 a0 a1 a2 a3" and b: "b = UInt256 b0 b1 b2 b3"
  define p0 where "p0 = add_limb a0 b0 0"
  define p1 where "p1 = add_limb a1 b1 (snd p0)"
  define p2 where "p2 = add_limb a2 b2 (snd p1)"
  define p3 where "p3 = add_limb a3 b3 (snd p2)"
  have c0: "snd p0 \<le> 1" unfolding p0_def by (rule carry_le_1) simp
  have c1: "snd p1 \<le> 1" unfolding p1_def by (rule carry_le_1 [OF c0])
  have c2: "snd p2 \<le> 1" unfolding p2_def by (rule carry_le_1 [OF c1])
  have s0: "sub_limb (fst p0) b0 0 = (a0, snd p0)"
    unfolding p0_def by (rule sub_add_limb) simp
  have s1: "sub_limb (fst p1) b1 (snd p0) = (a1, snd p1)"
    unfolding p1_def by (rule sub_add_limb [OF c0])
  have s2: "sub_limb (fst p2) b2 (snd p1) = (a2, snd p2)"
    unfolding p2_def by (rule sub_add_limb [OF c1])
  have s3: "sub_limb (fst p3) b3 (snd p2) = (a3, snd p3)"
    unfolding p3_def by (rule sub_add_limb [OF c2])
  have add: "uint256_add (UInt256 a0 a1 a2 a3) (UInt256 b0 b1 b2 b3) =
      UInt256 (fst p0) (fst p1) (fst p2) (fst p3)"
    unfolding uint256_add_unfold p0_def p1_def p2_def p3_def by (simp add: Let_def)
  show "uint256_sub (uint256_add a b) b = a"
    unfolding a b add uint256_sub_unfold by (simp add: Let_def s0 s1 s2 s3)
qed

subsection \<open>Bytes\<close>

lemma upt_4: "[0..<4] = [0,1,2,3]" by (simp add: upt_rec)
lemma upt_8: "[0..<8] = [0,1,2,3,4,5,6,7]" by (simp add: upt_rec)

lemma replicate_32: "replicate 32 (0::u8) = [0,0,0,0,0,0,0,0,0,0,0,0,0,0,0,0,0,0,0,0,0,0,0,0,0,0,0,0,0,0,0,0]"
  by (simp add: numeral_eq_Suc)

lemma list_update_Cons_numeral:
  "(x # xs)[numeral k := y] = x # xs[pred_numeral k := y]"
  by (simp add: numeral_eq_Suc)

lemma to_bytes_unfold:
  "to_bytes (UInt256 a b c d) =
    [byte_of d 7, byte_of d 6, byte_of d 5, byte_of d 4, byte_of d 3, byte_of d 2, byte_of d 1, byte_of d 0,
     byte_of c 7, byte_of c 6, byte_of c 5, byte_of c 4, byte_of c 3, byte_of c 2, byte_of c 1, byte_of c 0,
     byte_of b 7, byte_of b 6, byte_of b 5, byte_of b 4, byte_of b 3, byte_of b 2, byte_of b 1, byte_of b 0,
     byte_of a 7, byte_of a 6, byte_of a 5, byte_of a 4, byte_of a 3, byte_of a 2, byte_of a 1, byte_of a 0]"
  unfolding to_bytes_def upt_4 upt_8 replicate_32 
  by (simp add: list_update_Cons_numeral byte_of_def)

lemma bit_byte:
  "n < 64 \<Longrightarrow> bit (push_bit (j * 8) (ucast (byte_of x j)) :: u64) n
     \<longleftrightarrow> j * 8 \<le> n \<and> n < j * 8 + 8 \<and> bit x n"
  by (auto simp: bit_simps byte_of_def)

lemma limb_of_bytes:
  "fold (\<lambda>j l. l OR push_bit (j * 8) (ucast (byte_of x j))) [0,1,2,3,4,5,6,7] 0 = x"
proof (rule bit_word_eqI)
  fix n assume "n < LENGTH(64)"
  then have n: "n < 64" by simp
  have cover: "n < 8 \<or> (8 \<le> n \<and> n < 16) \<or> (16 \<le> n \<and> n < 24) \<or> (24 \<le> n \<and> n < 32)
     \<or> (32 \<le> n \<and> n < 40) \<or> (40 \<le> n \<and> n < 48) \<or> (48 \<le> n \<and> n < 56) \<or> (56 \<le> n \<and> n < 64)"
    using n by arith
  note bb = bit_byte [OF n, of 0 x, simplified] bit_byte [OF n, of 1 x, simplified]
      bit_byte [OF n, of 2 x, simplified] bit_byte [OF n, of 3 x, simplified]
      bit_byte [OF n, of 4 x, simplified] bit_byte [OF n, of 5 x, simplified]
      bit_byte [OF n, of 6 x, simplified] bit_byte [OF n, of 7 x, simplified]
  have "bit (fold (\<lambda>j l. l OR push_bit (j * 8) (ucast (byte_of x j))) [0,1,2,3,4,5,6,7] (0::u64)) n
     \<longleftrightarrow> (n < 8 \<or> (8 \<le> n \<and> n < 16) \<or> (16 \<le> n \<and> n < 24) \<or> (24 \<le> n \<and> n < 32)
     \<or> (32 \<le> n \<and> n < 40) \<or> (40 \<le> n \<and> n < 48) \<or> (48 \<le> n \<and> n < 56) \<or> (56 \<le> n \<and> n < 64)) \<and> bit x n"
    by (simp add: bit_or_iff bb) blast
  then show "bit (fold (\<lambda>j l. l OR push_bit (j * 8) (ucast (byte_of x j))) [0,1,2,3,4,5,6,7] (0::u64)) n = bit x n"
    using cover by simp
qed

lemma from_to_bytes: "from_bytes (to_bytes x) = x"
proof (cases x)
  case (UInt256 a b c d)
  have "from_bytes (to_bytes (UInt256 a b c d)) =
     UInt256 (fold (\<lambda>j l. l OR push_bit (j * 8) (ucast (byte_of a j))) [0,1,2,3,4,5,6,7] 0)
             (fold (\<lambda>j l. l OR push_bit (j * 8) (ucast (byte_of b j))) [0,1,2,3,4,5,6,7] 0)
             (fold (\<lambda>j l. l OR push_bit (j * 8) (ucast (byte_of c j))) [0,1,2,3,4,5,6,7] 0)
             (fold (\<lambda>j l. l OR push_bit (j * 8) (ucast (byte_of d j))) [0,1,2,3,4,5,6,7] 0)"
    unfolding to_bytes_unfold from_bytes_def upt_4 upt_8 
    by (simp add: uint256_zero_def)
  then show ?thesis unfolding UInt256 limb_of_bytes .
qed


lemma unat_byte_of: "unat (byte_of l j) = take_bit 8 (drop_bit (j * 8) (unat l))"
  by (simp add: byte_of_def unsigned_ucast_eq unat_drop_bit_eq)

lemma split_byte: "(m::nat) = take_bit 8 m + 256 * drop_bit 8 m"
  using bits_ident [of 8 m] by (simp add: push_bit_eq_mult)

lemma unat_bytes:
  "unat (l::u64) = unat (byte_of l 0) + 256 * (unat (byte_of l 1) + 256 * (unat (byte_of l 2)
     + 256 * (unat (byte_of l 3) + 256 * (unat (byte_of l 4) + 256 * (unat (byte_of l 5)
     + 256 * (unat (byte_of l 6) + 256 * unat (byte_of l 7)))))))"
proof -
  define n where "n = unat l"
  have n64: "drop_bit 64 n = 0"
    using unsigned_less [of l, where ?'a = nat] by (simp add: n_def drop_bit_eq_div)
  have s: "drop_bit (k + 8) n = drop_bit 8 (drop_bit k n)" for k
    by (simp add: add.commute)
  have e0: "n = take_bit 8 n + 256 * drop_bit 8 n" by (rule split_byte)
  have e1: "drop_bit 8 n = take_bit 8 (drop_bit 8 n) + 256 * drop_bit 16 n"
    using split_byte [of "drop_bit 8 n"] by simp
  have e2: "drop_bit 16 n = take_bit 8 (drop_bit 16 n) + 256 * drop_bit 24 n"
    using split_byte [of "drop_bit 16 n"] by simp
  have e3: "drop_bit 24 n = take_bit 8 (drop_bit 24 n) + 256 * drop_bit 32 n"
    using split_byte [of "drop_bit 24 n"] by simp
  have e4: "drop_bit 32 n = take_bit 8 (drop_bit 32 n) + 256 * drop_bit 40 n"
    using split_byte [of "drop_bit 32 n"] by simp
  have e5: "drop_bit 40 n = take_bit 8 (drop_bit 40 n) + 256 * drop_bit 48 n"
    using split_byte [of "drop_bit 40 n"] by simp
  have e6: "drop_bit 48 n = take_bit 8 (drop_bit 48 n) + 256 * drop_bit 56 n"
    using split_byte [of "drop_bit 48 n"] by simp
  have e7: "drop_bit 56 n = take_bit 8 (drop_bit 56 n)"
    using split_byte [of "drop_bit 56 n"] n64 by simp
  have "n = take_bit 8 n + 256 * (take_bit 8 (drop_bit 8 n) + 256 * (take_bit 8 (drop_bit 16 n)
     + 256 * (take_bit 8 (drop_bit 24 n) + 256 * (take_bit 8 (drop_bit 32 n)
     + 256 * (take_bit 8 (drop_bit 40 n) + 256 * (take_bit 8 (drop_bit 48 n)
     + 256 * take_bit 8 (drop_bit 56 n)))))))"
    using e0 e1 e2 e3 e4 e5 e6 e7 by presburger
  then show ?thesis
    by (simp add: unat_byte_of n_def)
qed

lemma be_val_to_bytes: "be_val (to_bytes x) = val x"
proof (cases x)
  case (UInt256 a b c d)
  show ?thesis
    unfolding UInt256 to_bytes_unfold be_val_def val_def
    by (simp add: unat_bytes [of a] unat_bytes [of b] unat_bytes [of c] unat_bytes [of d])
qed

subsection \<open>Bits of a \<open>UInt256\<close> and \<^verbatim>\<open>for_bits\<close>\<close>

lemma bit_unat_limb: "bit (unat (a::u64)) n \<longleftrightarrow> n < 64 \<and> bit a n"
  by (auto simp: bit_simps dest: bit_imp_le_length)

lemma bit_shifted_limb:
  "bit (push_bit k (unat (a::u64))) n \<longleftrightarrow> k \<le> n \<and> n - k < 64 \<and> bit a (n - k)"
  by (auto simp: bit_simps dest: bit_imp_le_length)

lemma val_bit:
  "bit (val (UInt256 a b c d)) p \<longleftrightarrow>
     (p < 64 \<and> bit a p) \<or> (64 \<le> p \<and> p - 64 < 64 \<and> bit b (p - 64))
     \<or> (128 \<le> p \<and> p - 128 < 64 \<and> bit c (p - 128))
     \<or> (192 \<le> p \<and> p - 192 < 64 \<and> bit d (p - 192))"
proof -
  have v: "val (UInt256 a b c d) =
      ((unat a + push_bit 64 (unat b)) + push_bit 128 (unat c)) + push_bit 192 (unat d)"
    by (simp add: val_def push_bit_eq_mult)
  have 1: "bit (unat a + push_bit 64 (unat b)) n \<longleftrightarrow>
      (n < 64 \<and> bit a n) \<or> (64 \<le> n \<and> n - 64 < 64 \<and> bit b (n - 64))" for n
    by (subst bit_disjunctive_add_iff) (auto simp: bit_unat_limb bit_shifted_limb)
  have 2: "bit ((unat a + push_bit 64 (unat b)) + push_bit 128 (unat c)) n \<longleftrightarrow>
      (n < 64 \<and> bit a n) \<or> (64 \<le> n \<and> n - 64 < 64 \<and> bit b (n - 64))
      \<or> (128 \<le> n \<and> n - 128 < 64 \<and> bit c (n - 128))" for n
    by (subst bit_disjunctive_add_iff) (auto simp: 1 bit_shifted_limb)
  show ?thesis
    unfolding v
    by (subst bit_disjunctive_add_iff) (auto simp: 2 bit_shifted_limb)
qed


lemma bit_one_shifted: "bit (2 ^ k :: u64) n \<longleftrightarrow> n = k \<and> k < 64"
  by (auto simp: bit_simps)

lemma set_bit256_cases:
  assumes "pos < 256"
  shows "set_bit256 (UInt256 a b c d) pos True =
     (if pos < 64 then UInt256 (a OR 2 ^ pos) b c d
      else if pos < 128 then UInt256 a (b OR 2 ^ (pos - 64)) c d
      else if pos < 192 then UInt256 a b (c OR 2 ^ (pos - 128)) d
      else UInt256 a b c (d OR 2 ^ (pos - 192)))"
proof -
  have m: "pos mod 64 = pos - 64 * (pos div 64)" by (simp add: minus_mult_div_eq_mod)
  consider "pos < 64" | "64 \<le> pos" "pos < 128" | "128 \<le> pos" "pos < 192" | "192 \<le> pos" "pos < 256"
    using assms by linarith
  then show ?thesis
  proof cases
    case 1
    then have "pos div 64 = 0" by simp
    with 1 m show ?thesis by (simp add: set_bit256_def Let_def)
  next
    case 2
    then have "pos div 64 = 1" by (simp add: div_nat_eqI)
    with 2 m show ?thesis by (simp add: set_bit256_def Let_def)
  next
    case 3
    then have "pos div 64 = 2" by (simp add: div_nat_eqI)
    with 3 m show ?thesis by (simp add: set_bit256_def Let_def)
  next
    case 4
    then have "pos div 64 = 3" by (simp add: div_nat_eqI)
    with 4 m show ?thesis by (simp add: set_bit256_def Let_def)
  qed
qed


lemma val_set_bit256_1:
  assumes "pos < 64"
  shows "bit (val (UInt256 (a OR 2 ^ pos) b c d)) p \<longleftrightarrow> bit (val (UInt256 a b c d)) p \<or> p = pos"
  unfolding val_bit using assms
  apply (simp add: bit_or_iff bit_one_shifted)
  apply (cases "p < 64")
  apply auto
  done


lemma val_set_bit256_2:
  assumes "64 \<le> pos" "pos < 128"
  shows "bit (val (UInt256 a (b OR 2 ^ (pos - 64)) c d)) p \<longleftrightarrow> bit (val (UInt256 a b c d)) p \<or> p = pos"
proof (cases "p = pos")
  case True
  have "pos - 64 < 64" using assms by linarith
  then show ?thesis unfolding val_bit using assms True
    by (simp add: bit_or_iff bit_one_shifted)
next
  case False
  then have "64 \<le> p \<Longrightarrow> p - 64 \<noteq> pos - 64" using assms by linarith
  then show ?thesis unfolding val_bit using assms False
    by (simp add: bit_or_iff bit_one_shifted) blast
qed

lemma val_set_bit256_3:
  assumes "128 \<le> pos" "pos < 192"
  shows "bit (val (UInt256 a b (c OR 2 ^ (pos - 128)) d)) p \<longleftrightarrow> bit (val (UInt256 a b c d)) p \<or> p = pos"
proof (cases "p = pos")
  case True
  have "pos - 128 < 64" using assms by linarith
  then show ?thesis unfolding val_bit using assms True
    by (simp add: bit_or_iff bit_one_shifted)
next
  case False
  then have "128 \<le> p \<Longrightarrow> p - 128 \<noteq> pos - 128" using assms by linarith
  then show ?thesis unfolding val_bit using assms False
    by (simp add: bit_or_iff bit_one_shifted) blast
qed

lemma val_set_bit256_4:
  assumes "192 \<le> pos" "pos < 256"
  shows "bit (val (UInt256 a b c (d OR 2 ^ (pos - 192)))) p \<longleftrightarrow> bit (val (UInt256 a b c d)) p \<or> p = pos"
proof (cases "p = pos")
  case True
  have "pos - 192 < 64" using assms by linarith
  then show ?thesis unfolding val_bit using assms True
    by (simp add: bit_or_iff bit_one_shifted)
next
  case False
  then have "192 \<le> p \<Longrightarrow> p - 192 \<noteq> pos - 192" using assms by linarith
  then show ?thesis unfolding val_bit using assms False
    by (simp add: bit_or_iff bit_one_shifted) blast
qed


lemma val_set_bit256:
  assumes "pos < 256"
  shows "bit (val (set_bit256 x pos True)) p \<longleftrightarrow> bit (val x) p \<or> p = pos"
proof (cases x)
  case (UInt256 a b c d)
  consider "pos < 64" | "64 \<le> pos" "pos < 128" | "128 \<le> pos" "pos < 192" | "192 \<le> pos" "pos < 256"
    using assms by linarith
  then show ?thesis
  proof cases
    case 1
    then show ?thesis unfolding UInt256 set_bit256_cases [OF assms]
      by (simp add: val_set_bit256_1)
  next
    case 2
    then show ?thesis unfolding UInt256 set_bit256_cases [OF assms]
      by (simp add: val_set_bit256_2)
  next
    case 3
    then show ?thesis unfolding UInt256 set_bit256_cases [OF assms]
      by (simp add: val_set_bit256_3)
  next
    case 4
    then show ?thesis unfolding UInt256 set_bit256_cases [OF assms]
      by (simp add: val_set_bit256_4)
  qed
qed


lemma val_zero: "val uint256_zero = 0"
  by (simp add: val_def uint256_zero_def)

declare for_bits_loop.simps [simp del]

lemma for_bits_loop_bits:
  assumes "0 \<le> i" "i \<le> n" "n \<le> 256" "\<And>p. bit (val e) p \<longleftrightarrow> p < nat i"
  shows "bit (val (for_bits_loop i n e)) p \<longleftrightarrow> p < nat n"
  using assms
proof (induction i n e rule: for_bits_loop.induct)
  case (1 i bit_count e)
  show ?case
  proof (cases "i < bit_count")
    case True
    have pos: "nat i < 256" using 1(2,4) True by linarith
    have step: "bit (val (set_bit256 e (nat i) True)) q \<longleftrightarrow> q < nat (i + 1)" for q
      unfolding val_set_bit256 [OF pos] "1.prems"(4) using "1.prems"(1) by linarith
    have "bit (val (for_bits_loop (i + 1) bit_count (set_bit256 e (nat i) True))) p \<longleftrightarrow> p < nat bit_count"
      using True "1.prems"(1,3) by (intro "1.IH" step) simp_all
    then show ?thesis
      using True by (subst for_bits_loop.simps) simp
  next
    case False
    then have "i = bit_count" using "1.prems"(2) by simp
    then show ?thesis
      using "1.prems"(4) by (subst for_bits_loop.simps) simp
  qed
qed

lemma val_for_bits_end:
  assumes "0 \<le> n" "n \<le> 256"
  shows "val (for_bits_loop 0 n uint256_zero) = 2 ^ nat n - 1"
proof -
  have "bit (val (for_bits_loop 0 n uint256_zero)) p \<longleftrightarrow> p < nat n" for p
    using assms by (intro for_bits_loop_bits) (simp_all add: val_zero)
  then have "val (for_bits_loop 0 n uint256_zero) = mask (nat n)"
    by (simp add: bit_eq_iff bit_mask_iff)
  then show ?thesis by (simp add: mask_eq_exp_minus_1)
qed

lemma val_for_bits_start:
  assumes "pos < 256"
  shows "val (set_bit256 uint256_zero pos True) = 2 ^ pos"
proof -
  have "bit (val (set_bit256 uint256_zero pos True)) p \<longleftrightarrow> p = pos" for p
    using val_set_bit256 [OF assms, of uint256_zero p] by (simp add: val_zero)
  then show ?thesis
    by (simp add: bit_eq_iff bit_exp_iff)
qed

section \<open>The claims about \<^verbatim>\<open>types.h\<close>\<close>

text \<open>
  Claim C9. For all \<open>UInt256\<close> values \<open>a\<close> and \<open>b\<close>, \<open>(a + b) - b\<close> is \<open>a\<close>, where
  \<^verbatim>\<open>operator+\<close> computes the sum modulo \<open>2^256\<close> through its carry chain over the four
  limbs and \<^verbatim>\<open>operator-\<close> the difference modulo \<open>2^256\<close> through its borrow chain. All
  limb values are covered, so also a limb of \<open>b\<close> that is \<open>2^64 - 1\<close> while a borrow is
  pending.
\<close>

theorem uint256_add_sub_cancel:
  "uint256_sub (uint256_add a b) b = a
   \<and> val (uint256_add a b) = (val a + val b) mod 2 ^ 256
   \<and> val (uint256_sub a b) = (val a + 2 ^ 256 - val b) mod 2 ^ 256"
  using add_sub_cancel_limbs [of a b] val_add [of a b] val_sub [of a b] by simp

lemma length_to_bytes: "length (to_bytes x) = 32"
  by (cases x) (simp add: to_bytes_unfold)

text \<open>
  Claim C7. For every \<open>UInt256\<close> \<open>x\<close>, \<^verbatim>\<open>from_bytes(to_bytes(x))\<close> is \<open>x\<close>; \<^verbatim>\<open>to_bytes\<close>
  returns exactly 32 bytes, in big-endian order: read as a base-256 number with byte 0
  first they give the value of \<open>x\<close>, and byte 0 is the top byte of the top limb.
\<close>

theorem bytes_roundtrip_big_endian:
  "from_bytes (to_bytes x) = x \<and> length (to_bytes x) = 32 \<and> be_val (to_bytes x) = val x
   \<and> to_bytes x ! 0 = ucast (drop_bit 56 (limb x 3))"
proof (intro conjI)
  show "to_bytes x ! 0 = ucast (drop_bit 56 (limb x 3))"
    by (cases x) (simp add: to_bytes_unfold byte_of_def)
qed (rule from_to_bytes length_to_bytes be_val_to_bytes)+

text \<open>
  Claim C6. For every bit count \<open>n\<close> with \<open>1 \<le> n \<le> 256\<close>, \<^verbatim>\<open>KeyRange::for_bits(n)\<close>
  returns the range with start \<open>2^(n-1)\<close> and end \<open>2^n - 1\<close>; for \<open>n \<le> 0\<close> and for
  \<open>n > 256\<close> it raises the validation error and produces no range.
\<close>

theorem for_bits_range:
  "(1 \<le> n \<and> n \<le> 256 \<longrightarrow>
      (\<exists>r. for_bits n = Inr r \<and> val (range_start r) = 2 ^ (nat n - 1)
           \<and> val (range_end r) = 2 ^ nat n - 1))
   \<and> (n \<le> 0 \<or> n > 256 \<longrightarrow>
      for_bits n = Inl (ValidationException ''Bit count must be between 1 and 256''))"
proof (intro conjI impI)
  assume n: "1 \<le> n \<and> n \<le> 256"
  then have pos: "nat (n - 1) < 256" by linarith
  have e: "nat (n - 1) = nat n - 1" by linarith
  show "\<exists>r. for_bits n = Inr r \<and> val (range_start r) = 2 ^ (nat n - 1)
           \<and> val (range_end r) = 2 ^ nat n - 1"
    using n val_for_bits_start [OF pos] val_for_bits_end [of n]
    by (simp add: for_bits_def e)
next
  assume "n \<le> 0 \<or> n > 256"
  then show "for_bits n = Inl (ValidationException ''Bit count must be between 1 and 256'')"
    by (auto simp: for_bits_def)
qed

theorem for_bits_range_witness:
  "(\<exists>r. for_bits 8 = Inr r \<and> val (range_start r) = 128 \<and> val (range_end r) = 255)
   \<and> for_bits 0 = Inl (ValidationException ''Bit count must be between 1 and 256'')
   \<and> for_bits 257 = Inl (ValidationException ''Bit count must be between 1 and 256'')"
  using for_bits_range [of 8] for_bits_range [of 0] for_bits_range [of 257] by simp

text \<open>
  Claim C2, evaluated on the code. The range \<open>[1, 10]\<close> has size 10; \<^verbatim>\<open>split(2)\<close> returns
  one part, the range itself, where the claim asks for \<open>\<lceil>10 / 2\<rceil> = 5\<close> sub-ranges.
\<close>

theorem split_returns_whole_range:
  "split \<lparr>range_start = uint256_of_u64 1, range_end = uint256_of_u64 10\<rparr> 2
     = [\<lparr>range_start = uint256_of_u64 1, range_end = uint256_of_u64 10\<rparr>]
   \<and> val (size_range \<lparr>range_start = uint256_of_u64 1, range_end = uint256_of_u64 10\<rparr>) = 10"
proof -
  have gt: "\<not> uint256_greater (uint256_of_u64 1) (uint256_of_u64 10)"
    by (simp add: uint256_greater_def uint256_less_def uint256_of_u64_def uint256_zero_def)
  have sub: "uint256_sub (uint256_of_u64 10) (uint256_of_u64 1) = uint256_of_u64 9"
    by (simp add: uint256_of_u64_def uint256_zero_def uint256_sub_unfold sub_limb_def)
  have add: "uint256_add (uint256_of_u64 9) (uint256_of_u64 1) = uint256_of_u64 10"
    by (simp add: uint256_of_u64_def uint256_zero_def uint256_add_unfold add_limb_def)
  show ?thesis
    by (simp add: split_def size_range_def gt sub add)
      (simp add: uint256_of_u64_def uint256_zero_def val_def)
qed

section \<open>The priority queue is a heap\<close>

declare push_heap_loop.simps [simp del] adjust_heap_loop.simps [simp del]

lemma task_less_trans: "task_less a b \<Longrightarrow> task_less b c \<Longrightarrow> task_less a c"
  by (auto simp: task_less_def)

lemma not_less_trans: "\<not> task_less a b \<Longrightarrow> \<not> task_less b c \<Longrightarrow> \<not> task_less a c"
  by (auto simp: task_less_def)

lemma less_not_less_trans: "task_less a b \<Longrightarrow> \<not> task_less c b \<Longrightarrow> \<not> task_less c a"
  by (auto simp: task_less_def)

lemma task_less_irrefl [simp]: "\<not> task_less a a"
  by (simp add: task_less_def)

lemma parent_less: "0 < (h::nat) \<Longrightarrow> (h - 1) div 2 < h"
  by arith

lemma task_less_asym: "task_less a b \<Longrightarrow> \<not> task_less b a"
  by (auto simp: task_less_def)

text \<open>Sift-up: the hole climbs while its parent is less than the value.\<close>

lemma push_heap_loop_length [simp]: "length (push_heap_loop ys h 0 v) = length ys"
  by (induction ys h "0::nat" v rule: push_heap_loop.induct)
     (subst push_heap_loop.simps, simp add: Let_def)

lemma push_heap_loop_heap:
  assumes "hole_inv ys n h v" "h < n" "n \<le> length ys"
  shows "is_heap (push_heap_loop ys h 0 v) n"
  using assms
proof (induction ys h "0::nat" v rule: push_heap_loop.induct)
  case (1 ys h v)
  let ?p = "(h - 1) div 2"
  show ?case
  proof (cases "h > 0 \<and> task_less (ys ! ?p) v")
    case True
    then have ph: "?p < h" using parent_less [of h] by simp
    have inv': "hole_inv (ys[h := ys ! ?p]) n ?p v"
      unfolding hole_inv_def
    proof (intro conjI allI impI)
      fix i assume i: "0 < i \<and> i < n \<and> i \<noteq> ?p"
      show "\<not> task_less (ys[h := ys ! ?p] ! ((i - 1) div 2)) (ys[h := ys ! ?p] ! i)"
      proof (cases "i = h")
        case True
        then show ?thesis using ph "1.prems" by simp
      next
        case False
        note ih = this
        show ?thesis
        proof (cases "(i - 1) div 2 = h")
          case True
          then have "\<not> task_less (ys ! ?p) (ys ! i)"
            using "1.prems"(1) i \<open>h > 0 \<and> _\<close> unfolding hole_inv_def by blast
          then show ?thesis using True ih "1.prems" by simp
        next
          case False
          then show ?thesis using "1.prems"(1) i ih unfolding hole_inv_def by simp
        qed
      qed
    next
      fix c assume c: "0 < c \<and> c < n \<and> (c - 1) div 2 = ?p"
      show "\<not> task_less v (ys[h := ys ! ?p] ! c)"
      proof (cases "c = h")
        case True
        then show ?thesis using True \<open>h > 0 \<and> _\<close> "1.prems" by (simp add: task_less_asym)
      next
        case False
        then have "\<not> task_less (ys ! ?p) (ys ! c)"
          using "1.prems"(1) c unfolding hole_inv_def by metis
        then have "\<not> task_less v (ys ! c)"
          using True less_not_less_trans by (metis task_less_def less_trans not_less_iff_gr_or_eq)
        then show ?thesis using False by simp
      qed
    next
      fix c assume c: "0 < c \<and> c < n \<and> (c - 1) div 2 = ?p \<and> 0 < ?p"
      have pp: "\<not> task_less (ys ! ((?p - 1) div 2)) (ys ! ?p)"
        using "1.prems"(1,2) c ph unfolding hole_inv_def by (metis less_trans nat_neq_iff)
      have pne: "(?p - 1) div 2 \<noteq> h" using ph c by (metis div_le_dividend diff_le_self le_trans not_le)
      show "\<not> task_less (ys[h := ys ! ?p] ! ((?p - 1) div 2)) (ys[h := ys ! ?p] ! c)"
      proof (cases "c = h")
        case True
        then show ?thesis using pp pne "1.prems" by simp
      next
        case False
        then have "\<not> task_less (ys ! ?p) (ys ! c)"
          using "1.prems"(1) c unfolding hole_inv_def by metis
        with pp have "\<not> task_less (ys ! ((?p - 1) div 2)) (ys ! c)"
          by (rule not_less_trans)
        then show ?thesis using False pne by simp
      qed
    qed
    have "is_heap (push_heap_loop (ys[h := ys ! ?p]) ?p 0 v) n"
      using True inv' ph "1.prems" by (intro "1.hyps") simp_all
    then show ?thesis
      using True by (subst push_heap_loop.simps) (simp add: Let_def)
  next
    case False
    have "is_heap (ys[h := v]) n"
      unfolding is_heap_def
    proof (intro allI impI)
      fix i assume i: "0 < i \<and> i < n"
      show "\<not> task_less (ys[h := v] ! ((i - 1) div 2)) (ys[h := v] ! i)"
      proof (cases "i = h")
        case True
        then have "(i - 1) div 2 \<noteq> h" using i parent_less [of h] by simp
        then show ?thesis using True False i "1.prems" by simp
      next
        case False
        then show ?thesis
          using "1.prems" i unfolding hole_inv_def
          by (cases "(i - 1) div 2 = h") simp_all
      qed
    qed
    then show ?thesis
      using False by (subst push_heap_loop.simps) (auto simp: Let_def)
  qed
qed


lemma mset_move_hole:
  assumes "i \<noteq> j" "i < length xs" "j < length xs"
  shows "mset (xs[i := xs ! j, j := v]) = mset (xs[i := v])"
proof -
  let ?zs = "xs[i := v]"
  have "?zs[j := ?zs ! i, i := ?zs ! j] = xs[i := xs ! j, j := v]"
    using assms by (simp add: list_update_swap [of i j])
  moreover have "mset (?zs[j := ?zs ! i, i := ?zs ! j]) = mset ?zs"
    using assms by (intro mset_swap) simp_all
  ultimately show ?thesis by simp
qed

lemma push_heap_loop_mset:
  assumes "h < length ys"
  shows "mset (push_heap_loop ys h 0 v) = mset (ys[h := v])"
  using assms
proof (induction ys h "0::nat" v rule: push_heap_loop.induct)
  case (1 ys h v)
  let ?p = "(h - 1) div 2"
  show ?case
  proof (cases "h > 0 \<and> task_less (ys ! ?p) v")
    case True
    then have ph: "?p < h" using parent_less [of h] by simp
    have "mset (push_heap_loop (ys[h := ys ! ?p]) ?p 0 v) = mset (ys[h := ys ! ?p, ?p := v])"
      using True ph "1.prems" by (intro "1.hyps") simp_all
    also have "\<dots> = mset (ys[h := v])"
      using ph "1.prems" by (intro mset_move_hole) simp_all
    finally show ?thesis
      using True by (subst push_heap_loop.simps) (simp add: Let_def)
  next
    case False
    then show ?thesis
      by (subst push_heap_loop.simps) (auto simp: Let_def)
  qed
qed

lemma push_heap_loop_above:
  assumes "h < k"
  shows "push_heap_loop ys h 0 v ! k = ys ! k"
  using assms
proof (induction ys h "0::nat" v rule: push_heap_loop.induct)
  case (1 ys h v)
  let ?p = "(h - 1) div 2"
  show ?case
  proof (cases "h > 0 \<and> task_less (ys ! ?p) v")
    case True
    then have ph: "?p < h" using parent_less [of h] by simp
    have "push_heap_loop (ys[h := ys ! ?p]) ?p 0 v ! k = ys[h := ys ! ?p] ! k"
      using True ph "1.prems" by (intro "1.hyps") simp_all
    then show ?thesis
      using True "1.prems" by (subst push_heap_loop.simps) (simp add: Let_def)
  next
    case False
    then show ?thesis
      using "1.prems" by (subst push_heap_loop.simps) (auto simp: Let_def)
  qed
qed

lemma pq_push_heap:
  assumes "is_heap c (length c)"
  shows "is_heap (pq_push x c) (Suc (length c))"
proof -
  have "hole_inv (c @ [x]) (Suc (length c)) (length c) x"
    unfolding hole_inv_def
  proof (intro conjI allI impI)
    fix i assume i: "0 < i \<and> i < Suc (length c) \<and> i \<noteq> length c"
    then have "i < length c" "(i - 1) div 2 < length c"
      using parent_less [of i] by simp_all
    then show "\<not> task_less ((c @ [x]) ! ((i - 1) div 2)) ((c @ [x]) ! i)"
      using assms i by (simp add: nth_append is_heap_def)
  next
    fix k assume "0 < k \<and> k < Suc (length c) \<and> (k - 1) div 2 = length c"
    then have False using parent_less [of k] by simp
    then show "\<not> task_less x ((c @ [x]) ! k)" ..
  next
    fix k assume "0 < k \<and> k < Suc (length c) \<and> (k - 1) div 2 = length c \<and> 0 < length c"
    then have False using parent_less [of k] by simp
    then show "\<not> task_less ((c @ [x]) ! ((length c - 1) div 2)) ((c @ [x]) ! k)" ..
  qed
  then have "is_heap (push_heap_loop (c @ [x]) (length c) 0 x) (Suc (length c))"
    by (rule push_heap_loop_heap) simp_all
  then show ?thesis by (simp add: pq_push_def push_heap_def)
qed

lemma pq_push_mset: "mset (pq_push x c) = add_mset x (mset c)"
  using push_heap_loop_mset [of "length c" "c @ [x]" x]
  by (simp add: pq_push_def push_heap_def)

lemma pq_push_length [simp]: "length (pq_push x c) = Suc (length c)"
  by (simp add: pq_push_def push_heap_def)


text \<open>Sift-down: the hole descends along the greater children to a leaf.\<close>

lemma adjust_heap_loop_inv:
  assumes "is_heap ys len" "len \<le> length ys" "h < len" "s = h"
    "adjust_heap_loop ys h s len = (ys', h', s')"
  shows "is_heap ys' len \<and> h' = s' \<and> h' < len \<and> \<not> h' < (len - 1) div 2
       \<and> length ys' = length ys \<and> mset (ys'[h' := v]) = mset (ys[h := v])
       \<and> (\<forall>k\<ge>len. ys' ! k = ys ! k)"
  using assms
proof (induction ys h s len rule: adjust_heap_loop.induct)
  case (1 ys h s len)
  show ?case
  proof (cases "s < (len - 1) div 2")
    case False
    then show ?thesis
      using "1.prems" by (subst (asm) adjust_heap_loop.simps) simp
  next
    case True
    define sc where "sc = 2 * (s + 1)"
    define c where "c = (if task_less (ys ! sc) (ys ! (sc - 1)) then sc - 1 else sc)"
    have sc: "sc < len" "0 < sc" "(sc - 1) div 2 = h" "(sc - 1 - 1) div 2 = h" "sc - 1 > 0"
      using True "1.prems"(4) unfolding sc_def by auto
    have c: "c < len" "0 < c" "(c - 1) div 2 = h" "h < c" "c = sc \<or> c = sc - 1"
      using sc "1.prems"(4) unfolding c_def sc_def by auto
    have big: "\<not> task_less (ys ! c) (ys ! sc)" "\<not> task_less (ys ! c) (ys ! (sc - 1))"
      unfolding c_def by (auto simp: task_less_asym)
    have heap': "is_heap (ys[h := ys ! c]) len"
      unfolding is_heap_def
    proof (intro allI impI)
      fix i assume i: "0 < i \<and> i < len"
      have old: "\<not> task_less (ys ! ((i - 1) div 2)) (ys ! i)"
        using "1.prems"(1) i unfolding is_heap_def by blast
      show "\<not> task_less (ys[h := ys ! c] ! ((i - 1) div 2)) (ys[h := ys ! c] ! i)"
      proof (cases "i = h")
        case True
        have "\<not> task_less (ys ! h) (ys ! c)"
          using "1.prems"(1) c unfolding is_heap_def by metis
        with old have "\<not> task_less (ys ! ((i - 1) div 2)) (ys ! c)"
          unfolding True by (rule not_less_trans)
        moreover have "(i - 1) div 2 \<noteq> h" using True i parent_less [of h] by simp
        ultimately show ?thesis using True "1.prems"(2,3) by simp
      next
        case False
        note ih = this
        show ?thesis
        proof (cases "(i - 1) div 2 = h")
          case True
          then have "i = sc \<or> i = sc - 1" using i "1.prems"(4) unfolding sc_def by auto
          then have "\<not> task_less (ys ! c) (ys ! i)" using big by auto
          then show ?thesis using True ih "1.prems"(2,3) by simp
        next
          case False
          then show ?thesis using old ih by simp
        qed
      qed
    qed
    have rec: "adjust_heap_loop (ys[h := ys ! c]) c c len = (ys', h', s')"
      using "1.prems"(5) True
      by (subst (asm) adjust_heap_loop.simps)
         (auto simp: Let_def sc_def c_def "1.prems"(4) split: if_splits)
    have IH: "is_heap ys' len \<and> h' = s' \<and> h' < len \<and> \<not> h' < (len - 1) div 2
       \<and> length ys' = length (ys[h := ys ! c]) \<and> mset (ys'[h' := v]) = mset (ys[h := ys ! c, c := v])
       \<and> (\<forall>k\<ge>len. ys' ! k = ys[h := ys ! c] ! k)"
      using True heap' "1.prems"(2) c(1) rec
      by (intro "1.IH" [OF True sc_def [unfolded \<open>s = h\<close> [symmetric]] c_def]) simp_all
    have "mset (ys[h := ys ! c, c := v]) = mset (ys[h := v])"
      using c "1.prems"(2,3) by (intro mset_move_hole) simp_all
    moreover have "\<forall>k\<ge>len. ys[h := ys ! c] ! k = ys ! k"
      using "1.prems"(3) by simp
    ultimately show ?thesis using IH by auto
  qed
qed


lemma leaf_no_child:
  fixes h len c :: nat
  assumes "\<not> h < (len - 1) div 2" "\<not> (len mod 2 = 0 \<and> int h = (int len - 2) div 2)"
    "0 < c" "c < len" "(c - 1) div 2 = h"
  shows False
  using assms by presburger

lemma last_child:
  fixes h len c :: nat
  assumes "len mod 2 = 0" "int h = (int len - 2) div 2" "0 < len"
  shows "2 * (h + 1) - 1 = len - 1" "h < len - 1" "(len - 1 - 1) div 2 = h"
    "0 < c \<and> c < len \<and> (c - 1) div 2 = h \<longrightarrow> c = len - 1"
  using assms by presburger+

lemma adjust_heap_correct:
  assumes "is_heap ys len" "0 < len" "len \<le> length ys"
  shows "is_heap (adjust_heap ys 0 len v) len
       \<and> mset (adjust_heap ys 0 len v) = mset (ys[0 := v])
       \<and> length (adjust_heap ys 0 len v) = length ys
       \<and> (\<forall>k\<ge>len. adjust_heap ys 0 len v ! k = ys ! k)"
proof -
  obtain ys1 h1 s1 where loop: "adjust_heap_loop ys 0 0 len = (ys1, h1, s1)"
    by (metis prod_cases3)
  have inv: "is_heap ys1 len" "h1 = s1" "h1 < len" "\<not> h1 < (len - 1) div 2"
    "length ys1 = length ys" "mset (ys1[h1 := v]) = mset (ys[0 := v])"
    "\<forall>k\<ge>len. ys1 ! k = ys ! k"
    using adjust_heap_loop_inv [OF assms(1,3) assms(2) refl loop, of v] by auto
  show ?thesis
  proof (cases "len mod 2 = 0 \<and> int s1 = (int len - 2) div 2")
    case True
    then have ev: "len mod 2 = 0" "int h1 = (int len - 2) div 2" using inv(2) by simp_all
    note lc = last_child [OF ev assms(2)]
    let ?ys2 = "ys1[h1 := ys1 ! (len - 1)]"
    have res: "adjust_heap ys 0 len v = push_heap_loop ?ys2 (len - 1) 0 v"
      using True lc(1) inv(2) by (simp add: adjust_heap_def loop Let_def)
    have hi: "hole_inv ?ys2 len (len - 1) v"
      unfolding hole_inv_def
    proof (intro conjI allI impI)
      fix i assume i: "0 < i \<and> i < len \<and> i \<noteq> len - 1"
      have old: "\<not> task_less (ys1 ! ((i - 1) div 2)) (ys1 ! i)"
        using inv(1) i unfolding is_heap_def by blast
      show "\<not> task_less (?ys2 ! ((i - 1) div 2)) (?ys2 ! i)"
      proof (cases "i = h1")
        case True
        have "\<not> task_less (ys1 ! h1) (ys1 ! (len - 1))"
          using inv(1) lc(2,3) assms(2) unfolding is_heap_def
          by (metis diff_less less_imp_diff_less zero_less_one not_gr_zero not_less_zero)
        with old have "\<not> task_less (ys1 ! ((i - 1) div 2)) (ys1 ! (len - 1))"
          unfolding True by (rule not_less_trans)
        moreover have "(i - 1) div 2 \<noteq> h1" using True i parent_less [of h1] by simp
        ultimately show ?thesis using True inv(3,5) assms(3) by simp
      next
        case False
        moreover have "(i - 1) div 2 \<noteq> h1" using lc(4) [of i] i by auto
        ultimately show ?thesis using old by simp
      qed
    next
      fix c assume "0 < c \<and> c < len \<and> (c - 1) div 2 = len - 1"
      then have False using parent_less [of c] by linarith
      then show "\<not> task_less v (?ys2 ! c)" ..
    next
      fix c assume "0 < c \<and> c < len \<and> (c - 1) div 2 = len - 1 \<and> 0 < len - 1"
      then have False using parent_less [of c] by linarith
      then show "\<not> task_less (?ys2 ! ((len - 1 - 1) div 2)) (?ys2 ! c)" ..
    qed
    have 1: "is_heap (push_heap_loop ?ys2 (len - 1) 0 v) len"
      using hi assms(2,3) inv(5) by (intro push_heap_loop_heap) simp_all
    have "mset (push_heap_loop ?ys2 (len - 1) 0 v) = mset (?ys2[len - 1 := v])"
      using assms(2,3) inv(5) by (intro push_heap_loop_mset) simp
    also have "\<dots> = mset (ys1[h1 := v])"
      using lc(2) assms(2,3) inv(3,5) by (intro mset_move_hole) simp_all
    finally have 2: "mset (push_heap_loop ?ys2 (len - 1) 0 v) = mset (ys[0 := v])"
      using inv(6) by simp
    have 3: "\<forall>k\<ge>len. push_heap_loop ?ys2 (len - 1) 0 v ! k = ys ! k"
      using inv(7,3) assms(2) by (simp add: push_heap_loop_above)
    show ?thesis unfolding res using 1 2 3 inv(5) by simp
  next
    case False
    then have res: "adjust_heap ys 0 len v = push_heap_loop ys1 h1 0 v"
      by (auto simp: adjust_heap_def loop Let_def)
    have nochild: "\<not> (0 < c \<and> c < len \<and> (c - 1) div 2 = h1)" for c
      using leaf_no_child [of h1 len c] inv(4) False unfolding inv(2) [symmetric] by auto
    have hi: "hole_inv ys1 len h1 v"
      unfolding hole_inv_def using inv(1) nochild by (auto simp: is_heap_def)
    have 1: "is_heap (push_heap_loop ys1 h1 0 v) len"
      using hi inv(3,5) assms(3) by (intro push_heap_loop_heap) simp_all
    have 2: "mset (push_heap_loop ys1 h1 0 v) = mset (ys[0 := v])"
      using inv(3,5,6) assms(3) push_heap_loop_mset [of h1 ys1 v] by simp
    have 3: "\<forall>k\<ge>len. push_heap_loop ys1 h1 0 v ! k = ys ! k"
      using inv(7,3) by (simp add: push_heap_loop_above)
    show ?thesis unfolding res using 1 2 3 inv(5) by simp
  qed
qed

lemma heap_top_max:
  assumes "is_heap xs n" "i < n"
  shows "\<not> task_less (xs ! 0) (xs ! i)"
  using assms(2)
proof (induction i rule: less_induct)
  case (less i)
  show ?case
  proof (cases "i = 0")
    case True
    then show ?thesis by simp
  next
    case False
    then have p: "(i - 1) div 2 < i" using parent_less [of i] by simp
    then have "\<not> task_less (xs ! 0) (xs ! ((i - 1) div 2))"
      using less by simp
    moreover have "\<not> task_less (xs ! ((i - 1) div 2)) (xs ! i)"
      using assms(1) False less.prems unfolding is_heap_def by simp
    ultimately show ?thesis by (rule not_less_trans)
  qed
qed

lemma pq_pop_correct:
  assumes "is_heap c (length c)" "c \<noteq> []"
  shows "is_heap (pq_pop c) (length (pq_pop c)) \<and> mset c = add_mset (pq_top c) (mset (pq_pop c))"
proof (cases "length c > 1")
  case False
  with assms(2) have "length c = 1" by (cases c) auto
  then obtain x where "c = [x]" by (cases c) auto
  then show ?thesis by (simp add: pq_pop_def pop_heap_def pq_top_def is_heap_def)
next
  case True
  define n where "n = length c"
  let ?ys = "c[n - 1 := c ! 0]"
  let ?r = "adjust_heap ?ys 0 (n - 1) (c ! (n - 1))"
  have pop: "pop_heap c = ?r"
    using True by (simp add: pop_heap_def Let_def n_def)
  have h0: "is_heap ?ys (n - 1)"
    using assms(1) unfolding is_heap_def n_def
    by (auto dest: parent_less simp: nth_list_update)
  have ok: "is_heap ?r (n - 1)" "mset ?r = mset (?ys[0 := c ! (n - 1)])"
      "length ?r = length ?ys" "\<forall>k\<ge>n - 1. ?r ! k = ?ys ! k"
    using adjust_heap_correct [OF h0, of "c ! (n - 1)"] True by (simp_all add: n_def)
  have len: "length ?r = n" using ok(3) by (simp add: n_def)
  have lastr: "last ?r = c ! 0"
    using ok(4) len True by (simp add: last_conv_nth n_def [symmetric] length_greater_0_conv [THEN iffD1])
  have "mset (?ys[0 := c ! (n - 1)]) = mset c"
    using True assms(2) mset_swap [of 0 c "n - 1"] by (simp add: n_def)
  then have m: "mset ?r = mset c" using ok(2) by simp
  have rne: "?r \<noteq> []" using len True by (auto simp: n_def)
  have "mset ?r = add_mset (last ?r) (mset (butlast ?r))"
    using rne by (metis append_butlast_last_id mset.simps(2) mset_append add_mset_add_single union_mset_add_mset_right add.right_neutral mset.simps(1))
  then have 1: "mset c = add_mset (pq_top c) (mset (pq_pop c))"
    using m lastr by (simp add: pq_pop_def pop pq_top_def)
  have 2: "is_heap (pq_pop c) (length (pq_pop c))"
    using ok(1) len unfolding pq_pop_def pop is_heap_def
    by (auto dest: parent_less simp: nth_butlast)
  show ?thesis using 1 2 by simp
qed

section \<open>The claims about \<^verbatim>\<open>thread_pool.h\<close>\<close>

subsection \<open>Order of dequeuing\<close>

lemma queue_of_heap: "is_heap (queue_of ts) (length (queue_of ts)) \<and> mset (queue_of ts) = mset ts"
proof (induction ts rule: rev_induct)
  case Nil
  show ?case by (simp add: queue_of_def is_heap_def)
next
  case (snoc t ts)
  have q: "queue_of (ts @ [t]) = pq_push t (queue_of ts)"
    by (simp add: queue_of_def)
  show ?case
    unfolding q using snoc pq_push_heap [of "queue_of ts" t]
    by (simp add: pq_push_mset)
qed

lemma pq_pop_length: "is_heap c (length c) \<Longrightarrow> c \<noteq> [] \<Longrightarrow> length (pq_pop c) = length c - 1"
  using pq_pop_correct [of c] by (metis size_mset size_add_mset diff_Suc_1)

lemma heap_top_greatest:
  assumes "is_heap c (length c)" "t \<in> set c"
  shows "\<not> task_less (pq_top c) t"
proof -
  from assms(2) obtain i where "i < length c" "c ! i = t"
    by (auto simp: in_set_conv_nth)
  then show ?thesis using heap_top_max [OF assms(1), of i] by (simp add: pq_top_def)
qed

lemma drain_n_correct:
  assumes "is_heap c (length c)" "length c \<le> k"
  shows "mset (drain_n k c) = mset c
       \<and> sorted_wrt (\<lambda>a b. \<not> task_less a b) (drain_n k c)"
  using assms
proof (induction k arbitrary: c)
  case 0
  then show ?case by simp
next
  case (Suc k)
  show ?case
  proof (cases "c = []")
    case True
    then show ?thesis by simp
  next
    case False
    note pop = pq_pop_correct [OF Suc.prems(1) False]
    have len: "length (pq_pop c) \<le> k"
      using pq_pop_length [OF Suc.prems(1) False] Suc.prems(2) by simp
    have IH: "mset (drain_n k (pq_pop c)) = mset (pq_pop c)"
      "sorted_wrt (\<lambda>a b. \<not> task_less a b) (drain_n k (pq_pop c))"
      using Suc.IH [of "pq_pop c"] pop len by simp_all
    have "\<not> task_less (pq_top c) t" if "t \<in> set (drain_n k (pq_pop c))" for t
    proof -
      from that have "t \<in># mset (pq_pop c)" using IH(1) by (metis set_mset_mset)
      then have "t \<in># mset c" using pop by simp
      then show ?thesis using heap_top_greatest [OF Suc.prems(1)] by simp
    qed
    then show ?thesis using False IH pop by simp
  qed
qed

text \<open>
  Claim C4, as amended. Tasks queued in the pool and taken out by a single worker are
  dequeued in max-heap order of their priority level: the dequeued sequence holds
  exactly the queued tasks, and no task is dequeued before a task of higher priority.
  Nothing is promised about the order among tasks of equal priority.
\<close>

theorem dequeue_in_priority_order:
  "mset (drain (queue_of ts)) = mset ts
   \<and> sorted_wrt (\<lambda>a b. priority_value (priority b) \<le> priority_value (priority a))
        (drain (queue_of ts))"
proof -
  have "(\<lambda>a b :: 'a Task. \<not> task_less a b)
      = (\<lambda>a b. priority_value (priority b) \<le> priority_value (priority a))"
    by (auto simp: task_less_def fun_eq_iff)
  then show ?thesis
    using drain_n_correct [of "queue_of ts" "length (queue_of ts)"] queue_of_heap [of ts]
    by (simp add: drain_def)
qed

text \<open>
  Claim C4, as stated, fails. Four tasks of priority \<open>NORMAL\<close> submitted in the order
  1, 2, 3, 4 are dequeued in the order 1, 3, 2, 4: \<^verbatim>\<open>Task::operator<\<close> compares the
  priority only and the binary heap does not keep the order of submission.
\<close>

theorem equal_priority_not_fifo:
  "drain (queue_of [normal_task 1, normal_task 2, normal_task 3, normal_task 4])
     = [normal_task 1, normal_task 3, normal_task 2, normal_task 4]
   \<and> drain (queue_of [normal_task 1, normal_task 2, normal_task 3, normal_task 4])
     \<noteq> [normal_task 1, normal_task 2, normal_task 3, normal_task 4]"
  by (simp add: drain_def queue_of_def pq_push_def push_heap_def pq_pop_def pop_heap_def pq_top_def
      adjust_heap_def push_heap_loop.simps adjust_heap_loop.simps task_less_def normal_task_def Let_def)

subsection \<open>Submitting to a pool that was shut down\<close>

text \<open>
  Claim C10. Submitting to a pool that has been shut down raises an error, and the
  state of the pool is the one before the call: no task is enqueued and neither
  \<open>tasks_submitted\<close> nor \<open>tasks_pending\<close> changes. This holds for \<^verbatim>\<open>submit\<close>,
  \<^verbatim>\<open>submit_with_priority\<close> and \<^verbatim>\<open>submit_batch\<close>.
\<close>

theorem submit_to_stopped_pool:
  "stop p \<Longrightarrow>
     submit_with_priority p prio f = (Inl (RuntimeError ''Cannot submit to stopped thread pool''), p)
   \<and> submit p f = (Inl (RuntimeError ''Cannot submit to stopped thread pool''), p)
   \<and> submit_batch p fs prio = (Inl (RuntimeError ''Cannot submit to stopped thread pool''), p)"
  by (simp add: submit_with_priority_def submit_def submit_batch_def)

theorem submit_to_stopped_pool_witness:
  "stop stopped_pool
   \<and> submit_with_priority stopped_pool HIGH 8 = (Inl (RuntimeError ''Cannot submit to stopped thread pool''), stopped_pool)
   \<and> submit stopped_pool 8 = (Inl (RuntimeError ''Cannot submit to stopped thread pool''), stopped_pool)
   \<and> submit_batch stopped_pool [8, 9] LOW = (Inl (RuntimeError ''Cannot submit to stopped thread pool''), stopped_pool)
   \<and> tasks stopped_pool = [\<lparr>func = 7, priority = NORMAL\<rparr>]
   \<and> tasks_submitted stopped_pool = 1 \<and> tasks_pending stopped_pool = 1"
proof -
  have s: "stop stopped_pool"
    by (simp add: stopped_pool_def shutdown_def submit_def submit_with_priority_def new_pool_def)
  have t: "tasks stopped_pool = [\<lparr>func = 7, priority = NORMAL\<rparr>]
     \<and> tasks_submitted stopped_pool = 1 \<and> tasks_pending stopped_pool = 1"
    by (simp add: stopped_pool_def shutdown_def submit_def submit_with_priority_def new_pool_def
        pq_push_def push_heap_def push_heap_loop.simps)
  show ?thesis
    using s t submit_to_stopped_pool [OF s, of HIGH 8 "[8, 9]"]
      submit_to_stopped_pool [OF s, of LOW 8 "[8, 9]"] by simp
qed

subsection \<open>Pausing\<close>

text \<open>
  Claim C8, evaluated on the code. One worker, one queued task, the pool not paused.
  The worker takes the mutex, passes the predicate of the wait and the two checks, the
  last of which reads \<^verbatim>\<open>paused_\<close> as false. Then \<^verbatim>\<open>pause()\<close> stores true to the flag; it
  does not take the mutex, so nothing orders it after the pop. The worker pops the task
  and runs it while the pool is paused.
\<close>

theorem pop_after_pause:
  "(case run (initial one_task_pool) [WLock 0, WPred 0, WStopCheck 0, WPausedCheck 0, EvPause] of
      None \<Rightarrow> False
    | Some s \<Rightarrow>
        paused (pool s) \<and> tasks (pool s) = [\<lparr>func = 7, priority = NORMAL\<rparr>]
        \<and> (case step s (WPop 0) of
              None \<Rightarrow> False
            | Some s' \<Rightarrow>
                paused (pool s') \<and> tasks (pool s') = []
                \<and> pc s' 0 = Running \<lparr>func = 7, priority = NORMAL\<rparr>
                \<and> (case step s' (WRun 0) of
                      None \<Rightarrow> False
                    | Some s'' \<Rightarrow> paused (pool s'') \<and> tasks_completed (pool s'') = 1)))"
  by (simp add: initial_def one_task_pool_def submit_def submit_with_priority_def new_pool_def
        pq_push_def push_heap_def push_heap_loop.simps pause_def pq_pop_def pop_heap_def pq_top_def)

text \<open>
  What the check before the pop does give: once the pool is paused and no worker stands
  between that check and the pop, no step of any worker pops a task, and the queue does
  not shrink, until \<^verbatim>\<open>resume()\<close> is called.
\<close>

lemma paused_step:
  assumes "paused (pool s)" "\<forall>w. pc s w \<noteq> AtPop" "e \<noteq> EvResume" "step s e = Some s'"
  shows "paused (pool s') \<and> (\<forall>w. pc s' w \<noteq> AtPop) \<and> (\<forall>w. e \<noteq> WPop w)
       \<and> length (tasks (pool s)) \<le> length (tasks (pool s'))"
proof (cases e)
  case (EvSubmit prio f)
  then show ?thesis using assms
    by (auto simp: submit_with_priority_def pq_push_def push_heap_def split: if_splits)
qed (use assms in \<open>auto simp: pause_def shutdown_def split: if_splits wpc.splits\<close>)

lemma paused_run:
  assumes "run s es = Some s'" "paused (pool s)" "\<forall>w. pc s w \<noteq> AtPop" "EvResume \<notin> set es"
  shows "paused (pool s') \<and> (\<forall>w. pc s' w \<noteq> AtPop) \<and> (\<forall>w. WPop w \<notin> set es)
       \<and> length (tasks (pool s)) \<le> length (tasks (pool s'))"
  using assms
proof (induction es arbitrary: s)
  case Nil
  then show ?case by simp
next
  case (Cons e es)
  from Cons.prems(1) obtain s1 where s1: "step s e = Some s1" "run s1 es = Some s'"
    by (auto split: option.splits)
  from Cons.prems(4) have ne: "e \<noteq> EvResume" "EvResume \<notin> set es" by auto
  note st = paused_step [OF Cons.prems(2,3) ne(1) s1(1)]
  from Cons.IH [OF s1(2) _ _ ne(2)] st
  show ?case by auto
qed

subsection \<open>\<^verbatim>\<open>parallel_for\<close>\<close>

declare chunk_loop.simps [simp del]

lemma unat_succ_below: "(j::u64) < ce \<Longrightarrow> unat (j + 1) = unat j + 1"
proof -
  assume "j < ce"
  then have "unat j < unat ce" by (simp add: word_less_nat_alt)
  moreover have "unat ce < 2 ^ 64" using unsigned_less [of ce] by simp
  ultimately show ?thesis by (simp add: unat_word_ariths)
qed



lemma invoked_append: "invoked (a @ b) = invoked a @ invoked b"
  by (simp add: invoked_def)

lemma stop_submit: "stop (snd (submit p f)) = stop p"
  by (simp add: submit_def submit_with_priority_def)









section \<open>The claim about the bloom filter\<close>

declare bloom_add_loop.simps [simp del] contains_loop.simps [simp del]

lemma pos_in_range:
  assumes "covers f"
  shows "unat ((h mod num_bits f) div 8) < length (bits f)" "unat ((h mod num_bits f) mod 8) < 8"
proof -
  have nz: "num_bits f \<noteq> 0" and le: "unat (num_bits f) \<le> 8 * length (bits f)"
    using assms by (simp_all add: covers_def)
  have "unat (h mod num_bits f) < unat (num_bits f)"
    using nz by (simp add: unat_mod unat_gt_0 [symmetric] unat_eq_zero)
  then have "unat (h mod num_bits f) div 8 < length (bits f)" using le by simp
  then show "unat ((h mod num_bits f) div 8) < length (bits f)" by (simp add: unat_div)
  show "unat ((h mod num_bits f) mod 8) < 8" by (simp add: unat_mod)
qed

lemma bit_mask_test:
  assumes "k < 8"
  shows "(b :: u8) AND push_bit k 1 = 0 \<longleftrightarrow> \<not> bit b k"
proof
  assume z: "b AND push_bit k 1 = 0"
  have "bit (b AND push_bit k 1) k = bit b k" using assms by (simp add: bit_simps)
  then show "\<not> bit b k" using z by simp
next
  assume "\<not> bit b k"
  then show "b AND push_bit k 1 = 0"
    by (intro bit_word_eqI) (auto simp: bit_simps)
qed

lemma set_pos_Some:
  assumes "unat (pos div 8) < length bs" "unat (pos mod 8) < 8"
  shows "\<exists>bs'. set_pos bs pos = Some bs' \<and> length bs' = length bs \<and> pos_set bs' pos
      \<and> (\<forall>q. pos_set bs q \<longrightarrow> pos_set bs' q)"
proof -
  let ?idx = "unat (pos div 8)"
  let ?bs' = "bs[?idx := bs ! ?idx OR push_bit (unat (pos mod 8)) 1]"
  have 1: "set_pos bs pos = Some ?bs'" using assms by (simp add: set_pos_def Let_def)
  have 2: "pos_set ?bs' pos" using assms by (simp add: pos_set_def bit_simps)
  have 3: "pos_set ?bs' q" if "pos_set bs q" for q
    using that assms unfolding pos_set_def
    by (cases "unat (q div 8) = ?idx") (simp_all add: bit_simps)
  show ?thesis using 1 2 3 by simp
qed

lemma bloom_add_loop_ok:
  assumes "covers f"
  shows "\<exists>f'. bloom_add_loop f bytes i = Some f' \<and> covers f'
      \<and> num_bits f' = num_bits f \<and> num_hashes f' = num_hashes f
      \<and> (\<forall>q. pos_set (bits f) q \<longrightarrow> pos_set (bits f') q)
      \<and> hashed_from f' bytes i"
  using assms
proof (induction f bytes i rule: bloom_add_loop.induct)
  case (1 f bytes i)
  show ?case
  proof (cases "i < num_hashes f")
    case False
    then show ?thesis
      using "1.prems" by (subst bloom_add_loop.simps) (auto simp: hashed_from_def)
  next
    case True
    have nz: "num_bits f \<noteq> 0" using "1.prems" by (simp add: covers_def)
    define pos where "pos = simple_hash bytes i mod num_bits f"
    obtain bs' where bs': "set_pos (bits f) pos = Some bs'" "length bs' = length (bits f)"
      "pos_set bs' pos" "\<forall>q. pos_set (bits f) q \<longrightarrow> pos_set bs' q"
      using set_pos_Some [OF pos_in_range [OF "1.prems", of "simple_hash bytes i"]]
      unfolding pos_def by blast
    have cov: "covers (f\<lparr>bits := bs'\<rparr>)"
      using "1.prems" bs'(2) by (simp add: covers_def)
    from "1.IH" [OF True nz refl pos_def [unfolded pos_def] bs'(1) [unfolded pos_def] cov]
    obtain f' where f': "bloom_add_loop (f\<lparr>bits := bs'\<rparr>) bytes (i + 1) = Some f'" "covers f'"
      "num_bits f' = num_bits f" "num_hashes f' = num_hashes f"
      "\<forall>q. pos_set bs' q \<longrightarrow> pos_set (bits f') q" "hashed_from f' bytes (i + 1)"
      by auto
    have unf: "bloom_add_loop f bytes i = Some f'"
      using True nz bs'(1) f'(1)
      by (subst bloom_add_loop.simps) (simp add: Let_def pos_def)
    have "hashed_from f' bytes i"
      unfolding hashed_from_def
    proof (intro allI impI)
      fix j assume j: "i \<le> j \<and> j < num_hashes f'"
      show "pos_set (bits f') (simple_hash bytes j mod num_bits f')"
      proof (cases "j = i")
        case True
        then show ?thesis using bs'(3) f'(3,5) by (simp add: pos_def)
      next
        case False
        then have "unat i < unat j" using j by (simp add: word_le_nat_alt word_unat_eq_iff)
        then have "i + 1 \<le> j"
          using unat_succ_below [OF True] by (simp add: word_le_nat_alt)
        then show ?thesis using f'(6) j unfolding hashed_from_def by simp
      qed
    qed
    then show ?thesis using unf f' bs'(4) by simp
  qed
qed

lemma contains_loop_true:
  assumes "covers f" "hashed_from f bytes i"
  shows "contains_loop f bytes i = Some True"
  using assms
proof (induction f bytes i rule: contains_loop.induct)
  case (1 f bytes i)
  show ?case
  proof (cases "i < num_hashes f")
    case False
    then show ?thesis by (subst contains_loop.simps) simp
  next
    case True
    have nz: "num_bits f \<noteq> 0" using "1.prems" by (simp add: covers_def)
    define pos where "pos = simple_hash bytes i mod num_bits f"
    note rng = pos_in_range [OF "1.prems"(1), of "simple_hash bytes i", folded pos_def]
    have "pos_set (bits f) pos"
      using "1.prems"(2) True unfolding hashed_from_def pos_def by simp
    then have test: "bits f ! unat (pos div 8) AND push_bit (unat (pos mod 8)) 1 \<noteq> 0"
      using bit_mask_test [OF rng(2)] by (simp add: pos_set_def)
    have next_hashed: "hashed_from f bytes (i + 1)"
      unfolding hashed_from_def
    proof (intro allI impI)
      fix j assume j: "i + 1 \<le> j \<and> j < num_hashes f"
      then have "i \<le> j" using unat_succ_below [OF True] by (simp add: word_le_nat_alt)
      then show "pos_set (bits f) (simple_hash bytes j mod num_bits f)"
        using "1.prems"(2) j unfolding hashed_from_def by simp
    qed
    have "contains_loop f bytes (i + 1) = Some True"
      using "1.IH" [OF True nz refl pos_def [unfolded pos_def] refl rng(1) [unfolded pos_def]
          test [unfolded pos_def] "1.prems"(1) next_hashed] .
    then show ?thesis
      using True nz rng(1) test
      by (subst contains_loop.simps) (simp add: Let_def pos_def)
  qed
qed

lemma hashed_from_mono:
  assumes "hashed_from f bytes i" "num_bits f' = num_bits f" "num_hashes f' = num_hashes f"
    "\<forall>q. pos_set (bits f) q \<longrightarrow> pos_set (bits f') q"
  shows "hashed_from f' bytes i"
  using assms unfolding hashed_from_def by simp

lemma add_all_ok:
  assumes "covers f" "\<forall>e\<in>S. hashed_from f e 0"
  shows "\<exists>f'. add_all f es = Some f' \<and> covers f' \<and> (\<forall>e\<in>S \<union> set es. hashed_from f' e 0)"
  using assms
proof (induction es arbitrary: f S)
  case Nil
  then show ?case by simp
next
  case (Cons x es)
  obtain f1 where f1: "bloom_add_loop f x 0 = Some f1" "covers f1"
    "num_bits f1 = num_bits f" "num_hashes f1 = num_hashes f"
    "\<forall>q. pos_set (bits f) q \<longrightarrow> pos_set (bits f1) q" "hashed_from f1 x 0"
    using bloom_add_loop_ok [OF Cons.prems(1), of x 0] by blast
  have "\<forall>e\<in>insert x S. hashed_from f1 e 0"
    using Cons.prems(2) f1 hashed_from_mono [of f _ 0 f1] by auto
  from Cons.IH [OF f1(2) this]
  obtain f' where "add_all f1 es = Some f'" "covers f'" "\<forall>e\<in>insert x S \<union> set es. hashed_from f' e 0"
    by blast
  then show ?case using f1(1) by (auto simp: add_def)
qed

lemma new_filter_covers:
  assumes "1 \<le> nb" "nb \<le> 2 ^ 64 - 8"
  shows "covers (new_filter nb nh)"
proof -
  have n: "unat nb \<le> 2 ^ 64 - 8" "1 \<le> unat nb"
    using assms by (simp_all add: word_le_nat_alt)
  then have "unat (nb + 7) = unat nb + 7" by (simp add: unat_word_ariths)
  then have "unat ((nb + 7) div 8) = (unat nb + 7) div 8" by (simp add: unat_div)
  moreover have "nb \<noteq> 0" using n(2) by auto
  ultimately show ?thesis by (simp add: covers_def new_filter_def)
qed

text \<open>
  Where the size of the vector is computed without wrapping, \<open>1 \<le> num_bits \<le> 2^64 - 8\<close>,
  the filter behaves as intended for any \<open>num_hashes\<close>: every sequence of \<^verbatim>\<open>add\<close>
  operations is carried out, and after it \<^verbatim>\<open>possibly_contains(e)\<close> returns true for every
  element \<open>e\<close> of the sequence.
\<close>

lemma bloom_no_false_negatives:
  assumes "1 \<le> nb" "nb \<le> 2 ^ 64 - 8"
  shows "\<exists>f. add_all (new_filter nb nh) es = Some f
           \<and> (\<forall>e\<in>set es. possibly_contains f e = Some True)"
proof -
  from add_all_ok [OF new_filter_covers [OF assms, of nh], where S = "{}" and es = es]
  obtain f where f: "add_all (new_filter nb nh) es = Some f" "covers f"
    "\<forall>e\<in>set es. hashed_from f e 0"
    by auto
  then show ?thesis
    by (auto simp: possibly_contains_def contains_loop_true)
qed

lemma bloom_no_false_negatives_example:
  "(1::u64) \<le> 10000 \<and> (10000::u64) \<le> 2 ^ 64 - 8
   \<and> (\<exists>f. add_all (new_filter 10000 7) [[0x39, 0x30, 0, 0], [0x2a, 0, 0, 0]] = Some f
          \<and> possibly_contains f [0x39, 0x30, 0, 0] = Some True
          \<and> possibly_contains f [0x2a, 0, 0, 0] = Some True)"
proof -
  have 1: "(1::u64) \<le> 10000" by simp
  have 2: "(10000::u64) \<le> 2 ^ 64 - 8" by simp
  from bloom_no_false_negatives [OF 1 2, of 7 "[[0x39, 0x30, 0, 0], [0x2a, 0, 0, 0]]"]
  show ?thesis using 1 2 by auto
qed

text \<open>
  Claim C3, evaluated on the code. The claim is for any \<open>num_bits \<ge> 1\<close>. At
  \<open>num_bits = 2^64 - 1\<close> the round-up \<^verbatim>\<open>(num_bits + 7) / 8\<close> of the constructor wraps around
  to 0 bytes, the vector is empty, and the first \<^verbatim>\<open>add\<close> writes \<^verbatim>\<open>bits_[pos / 8]\<close> beyond it:
  no element can be added, so none is found afterwards.
\<close>

theorem bloom_size_wraps:
  "(1::u64) \<le> 2 ^ 64 - 1 \<and> bits (new_filter (2 ^ 64 - 1) 1) = []
   \<and> add_all (new_filter (2 ^ 64 - 1) 1) [[]] = None"
proof -
  have b: "bits (new_filter (2 ^ 64 - 1) 1) = []" by (simp add: new_filter_def)
  have "bloom_add_loop (new_filter (2 ^ 64 - 1) 1) [] 0 = None"
    by (subst bloom_add_loop.simps) (simp add: b set_pos_def simple_hash_def, simp add: new_filter_def)
  then show ?thesis using b by (simp add: add_def)
qed

section \<open>The claim about the BSGS search\<close>

















end
